theory Spec2Isabelle
  imports Complex_Main "HOL-Library.Multiset"
begin

text \<open>
  A shallow embedding of the image converter: the item registry, the batch conversion
  scheduler and the download of the archive (\<^verbatim>\<open>App.tsx\<close>, \<^verbatim>\<open>imageService.ts\<close>), and the assembly
  of the PDF document (\<^verbatim>\<open>pdfService.ts\<close>). What the browser, the promises and the libraries
  decide is a parameter of each run (the record \<open>Host\<close>); what the code does with it is
  defined here and the properties of the specification are proved about it.
\<close>

section \<open>Data model (types.ts)\<close>

text \<open>
  The enum \<^verbatim>\<open>ConversionStatus\<close> and the interfaces \<^verbatim>\<open>FileItem\<close>, \<^verbatim>\<open>PdfOptions\<close>.
  A browser \<^verbatim>\<open>File\<close> is a name with its bytes, a \<^verbatim>\<open>Blob\<close> is its bytes. The optional
  fields \<^verbatim>\<open>convertedBlob?\<close> and \<^verbatim>\<open>error?\<close> are options: \<open>None\<close> is the absent field.
  The field \<^verbatim>\<open>id\<close> is written \<open>id'\<close>, since \<open>id\<close> is HOL's identity function.
\<close>

datatype ConversionStatus = IDLE | CONVERTING | COMPLETED | ERROR

type_synonym Blob = string

record File =
  name :: string
  bytes :: Blob

record FileItem =
  id' :: string
  file' :: File
  previewUrl :: string
  status :: ConversionStatus
  convertedBlob :: "Blob option"
  error :: "string option"

datatype AppMode = JPEG | PDF

datatype PdfMargin = none | small | big

datatype PdfOrientation = portrait | landscape

record PdfOptions =
  margin :: PdfMargin
  orientation :: PdfOrientation

text \<open>
  \<^verbatim>\<open>Partial<FileItem>\<close>, the third argument of \<^verbatim>\<open>updateStatus\<close>: every key of
  \<^verbatim>\<open>FileItem\<close> may be present or not. \<open>None\<close> is a key the object does not have; for the two
  optional fields a present key may also carry \<^verbatim>\<open>undefined\<close> (\<open>Some None\<close>).
\<close>

record PartialFileItem =
  patch_id :: "string option"
  patch_file :: "File option"
  patch_previewUrl :: "string option"
  patch_status :: "ConversionStatus option"
  patch_convertedBlob :: "Blob option option"
  patch_error :: "string option option"

definition no_extra :: PartialFileItem where
  "no_extra = \<lparr>patch_id = None, patch_file = None, patch_previewUrl = None,
     patch_status = None, patch_convertedBlob = None, patch_error = None\<rparr>"

section \<open>Item registry (App.tsx)\<close>

text \<open>
  The component state: the \<^verbatim>\<open>useState\<close> cells of \<^verbatim>\<open>App\<close>, and the log of the
  \<^verbatim>\<open>URL.revokeObjectURL\<close> calls made so far (the display references released).
  A state updater \<^verbatim>\<open>setFiles(prev => ...)\<close> is applied to the state at the point of the call.
\<close>

record AppState =
  mode :: AppMode
  files :: "FileItem list"
  isProcessing :: bool
  pdfBlob :: "Blob option"
  pdfOptions :: PdfOptions
  revoked :: "string list"

text \<open>The object spread \<^verbatim>\<open>{ ...f, status, ...extra }\<close>: the keys of \<^verbatim>\<open>extra\<close> are written last.\<close>

definition spread :: "FileItem \<Rightarrow> ConversionStatus \<Rightarrow> PartialFileItem \<Rightarrow> FileItem" where
  "spread f s extra =
     \<lparr>id' = (case patch_id extra of None \<Rightarrow> id' f | Some v \<Rightarrow> v),
      file' = (case patch_file extra of None \<Rightarrow> file' f | Some v \<Rightarrow> v),
      previewUrl = (case patch_previewUrl extra of None \<Rightarrow> previewUrl f | Some v \<Rightarrow> v),
      status = (case patch_status extra of None \<Rightarrow> s | Some v \<Rightarrow> v),
      convertedBlob = (case patch_convertedBlob extra of None \<Rightarrow> convertedBlob f | Some v \<Rightarrow> v),
      error = (case patch_error extra of None \<Rightarrow> error f | Some v \<Rightarrow> v)\<rparr>"

text \<open>\<^verbatim>\<open>prev.map(f => f.id === id ? { ...f, status, ...extra } : f)\<close>\<close>

definition updateStatus ::
  "string \<Rightarrow> ConversionStatus \<Rightarrow> PartialFileItem \<Rightarrow> FileItem list \<Rightarrow> FileItem list" where
  "updateStatus i s extra prev = map (\<lambda>f. if id' f = i then spread f s extra else f) prev"

text \<open>
  \<^verbatim>\<open>handleFilesAdded\<close>: each accepted file comes with the identifier \<^verbatim>\<open>uuidv4()\<close> returned
  for it and the URL \<^verbatim>\<open>URL.createObjectURL(file)\<close> returned for it.
\<close>

definition newItem :: "File \<times> string \<times> string \<Rightarrow> FileItem" where
  "newItem x = (case x of (f, uuid, url) \<Rightarrow>
     \<lparr>id' = uuid, file' = f, previewUrl = url, status = IDLE, convertedBlob = None, error = None\<rparr>)"

definition handleFilesAdded :: "(File \<times> string \<times> string) list \<Rightarrow> AppState \<Rightarrow> AppState" where
  "handleFilesAdded newFiles st = st\<lparr>files := files st @ map newItem newFiles, pdfBlob := None\<rparr>"

text \<open>
  \<^verbatim>\<open>handleRemoveFile\<close>: \<^verbatim>\<open>prev.find\<close> is the first item with the identifier, whose URL is
  revoked; \<^verbatim>\<open>prev.filter\<close> drops every item with the identifier.
\<close>

definition handleRemoveFile :: "string \<Rightarrow> AppState \<Rightarrow> AppState" where
  "handleRemoveFile i st =
     (let fileToRemove = find (\<lambda>f. id' f = i) (files st)
      in st\<lparr>revoked := (case fileToRemove of None \<Rightarrow> revoked st
                          | Some f \<Rightarrow> revoked st @ [previewUrl f]),
            files := filter (\<lambda>f. id' f \<noteq> i) (files st),
            pdfBlob := None\<rparr>)"

text \<open>\<^verbatim>\<open>handleClearAll\<close>; the argument is the answer of \<^verbatim>\<open>window.confirm\<close>.\<close>

definition handleClearAll :: "bool \<Rightarrow> AppState \<Rightarrow> AppState" where
  "handleClearAll confirmed st =
     (if confirmed
      then st\<lparr>revoked := revoked st @ map previewUrl (files st), files := [], pdfBlob := None\<rparr>
      else st)"

section \<open>JavaScript numbers\<close>

text \<open>
  A JavaScript number is an IEEE 754 double: a finite value, an infinity, or \<^verbatim>\<open>NaN\<close>. The
  operations below follow IEEE 754 on the infinities, on \<^verbatim>\<open>NaN\<close> and on division by zero; on
  finite operands they round the exact result with \<open>rnd\<close>, which the program takes to be
  \<open>binary64\<close> below. The sign of zero is not modelled: every zero is \<^verbatim>\<open>+0\<close>, as it is for the non-negative operands of
  \<^verbatim>\<open>generatePdf\<close>.
\<close>

datatype js_number = Num real | PosInfinity | NegInfinity | NaN

fun js_div :: "(real \<Rightarrow> js_number) \<Rightarrow> js_number \<Rightarrow> js_number \<Rightarrow> js_number" where
  "js_div rnd (Num a) (Num b) =
     (if b \<noteq> 0 then rnd (a / b)
      else if a = 0 then NaN else if a > 0 then PosInfinity else NegInfinity)"
| "js_div rnd (Num a) PosInfinity = Num 0"
| "js_div rnd (Num a) NegInfinity = Num 0"
| "js_div rnd PosInfinity (Num b) = (if b \<ge> 0 then PosInfinity else NegInfinity)"
| "js_div rnd NegInfinity (Num b) = (if b \<ge> 0 then NegInfinity else PosInfinity)"
| "js_div rnd a b = NaN"

fun js_mul :: "(real \<Rightarrow> js_number) \<Rightarrow> js_number \<Rightarrow> js_number \<Rightarrow> js_number" where
  "js_mul rnd (Num a) (Num b) = rnd (a * b)"
| "js_mul rnd PosInfinity (Num b) =
     (if b = 0 then NaN else if b > 0 then PosInfinity else NegInfinity)"
| "js_mul rnd NegInfinity (Num b) =
     (if b = 0 then NaN else if b > 0 then NegInfinity else PosInfinity)"
| "js_mul rnd (Num a) PosInfinity =
     (if a = 0 then NaN else if a > 0 then PosInfinity else NegInfinity)"
| "js_mul rnd (Num a) NegInfinity =
     (if a = 0 then NaN else if a > 0 then NegInfinity else PosInfinity)"
| "js_mul rnd PosInfinity PosInfinity = PosInfinity"
| "js_mul rnd NegInfinity NegInfinity = PosInfinity"
| "js_mul rnd PosInfinity NegInfinity = NegInfinity"
| "js_mul rnd NegInfinity PosInfinity = NegInfinity"
| "js_mul rnd a b = NaN"

fun js_add :: "(real \<Rightarrow> js_number) \<Rightarrow> js_number \<Rightarrow> js_number \<Rightarrow> js_number" where
  "js_add rnd (Num a) (Num b) = rnd (a + b)"
| "js_add rnd PosInfinity (Num b) = PosInfinity"
| "js_add rnd NegInfinity (Num b) = NegInfinity"
| "js_add rnd (Num a) PosInfinity = PosInfinity"
| "js_add rnd (Num a) NegInfinity = NegInfinity"
| "js_add rnd PosInfinity PosInfinity = PosInfinity"
| "js_add rnd NegInfinity NegInfinity = NegInfinity"
| "js_add rnd a b = NaN"

fun js_sub :: "(real \<Rightarrow> js_number) \<Rightarrow> js_number \<Rightarrow> js_number \<Rightarrow> js_number" where
  "js_sub rnd (Num a) (Num b) = rnd (a - b)"
| "js_sub rnd PosInfinity (Num b) = PosInfinity"
| "js_sub rnd NegInfinity (Num b) = NegInfinity"
| "js_sub rnd (Num a) PosInfinity = NegInfinity"
| "js_sub rnd (Num a) NegInfinity = PosInfinity"
| "js_sub rnd PosInfinity NegInfinity = PosInfinity"
| "js_sub rnd NegInfinity PosInfinity = NegInfinity"
| "js_sub rnd a b = NaN"

text \<open>The comparison \<^verbatim>\<open>a > b\<close>: exact, and false when an operand is \<^verbatim>\<open>NaN\<close>.\<close>

fun js_gt :: "js_number \<Rightarrow> js_number \<Rightarrow> bool" where
  "js_gt (Num a) (Num b) = (a > b)"
| "js_gt PosInfinity (Num b) = True"
| "js_gt PosInfinity NegInfinity = True"
| "js_gt (Num a) NegInfinity = True"
| "js_gt a b = False"

text \<open>
  The rounding of the arithmetic of JavaScript: IEEE 754 binary64, round to nearest, ties to
  even. The unit in the last place of \<open>x\<close> is \<open>2^(e - 52)\<close> for the exponent \<open>e\<close> of \<open>x\<close>, at
  least \<open>-1022\<close> (below it the numbers are subnormal); a result of magnitude \<open>2^1024\<close> or more
  overflows to an infinity.
\<close>

definition round_half_even :: "real \<Rightarrow> int" where
  "round_half_even q =
     (let f = \<lfloor>q\<rfloor>
      in if q - of_int f < 1 / 2 then f
         else if q - of_int f > 1 / 2 then f + 1
         else if even f then f else f + 1)"

definition binary64_ulp :: "real \<Rightarrow> real" where
  "binary64_ulp x = 2 powi (max \<lfloor>log 2 \<bar>x\<bar>\<rfloor> (- 1022) - 52)"

definition binary64 :: "real \<Rightarrow> js_number" where
  "binary64 x =
     (if x = 0 then Num 0
      else (let y = of_int (round_half_even (x / binary64_ulp x)) * binary64_ulp x
            in if \<bar>y\<bar> \<ge> 2 ^ 1024 then (if x > 0 then PosInfinity else NegInfinity)
               else Num y))"

section \<open>Page geometry (pdfService.ts)\<close>

text \<open>
  The page sizes and the margins are whole numbers of millimetres: doubles hold them, their
  doubles and their differences exactly, so the page geometry is stated in the real numbers.
\<close>

fun MARGIN_SIZES :: "PdfMargin \<Rightarrow> real" where
  "MARGIN_SIZES none = 0"
| "MARGIN_SIZES small = 10"
| "MARGIN_SIZES big = 25"

definition PAGE_SIZE_a4_width :: real where "PAGE_SIZE_a4_width = 210"
definition PAGE_SIZE_a4_height :: real where "PAGE_SIZE_a4_height = 297"

definition pageWidth :: "PdfOptions \<Rightarrow> real" where
  "pageWidth options =
     (if orientation options = portrait then PAGE_SIZE_a4_width else PAGE_SIZE_a4_height)"

definition pageHeight :: "PdfOptions \<Rightarrow> real" where
  "pageHeight options =
     (if orientation options = portrait then PAGE_SIZE_a4_height else PAGE_SIZE_a4_width)"

definition marginSize :: "PdfOptions \<Rightarrow> real" where
  "marginSize options = MARGIN_SIZES (margin options)"

definition contentWidth :: "PdfOptions \<Rightarrow> real" where
  "contentWidth options = pageWidth options - (marginSize options * 2)"

definition contentHeight :: "PdfOptions \<Rightarrow> real" where
  "contentHeight options = pageHeight options - (marginSize options * 2)"

text \<open>
  The fit of \<^verbatim>\<open>generatePdf\<close> in the numbers of JavaScript, for a content box \<open>cw\<close> by \<open>ch\<close>
  and an image \<open>width\<close> by \<open>height\<close>: \<^verbatim>\<open>imgRatio\<close>, then \<^verbatim>\<open>finalWidth\<close> and \<^verbatim>\<open>finalHeight\<close>
  after the \<^verbatim>\<open>if\<close>.
\<close>

definition imgRatio :: "(real \<Rightarrow> js_number) \<Rightarrow> js_number \<Rightarrow> js_number \<Rightarrow> js_number" where
  "imgRatio rnd width height = js_div rnd width height"

definition finalHeight ::
  "(real \<Rightarrow> js_number) \<Rightarrow> js_number \<Rightarrow> js_number \<Rightarrow> js_number \<Rightarrow> js_number \<Rightarrow> js_number" where
  "finalHeight rnd cw ch width height =
     (if js_gt (js_div rnd cw (imgRatio rnd width height)) ch then ch
      else js_div rnd cw (imgRatio rnd width height))"

definition finalWidth ::
  "(real \<Rightarrow> js_number) \<Rightarrow> js_number \<Rightarrow> js_number \<Rightarrow> js_number \<Rightarrow> js_number \<Rightarrow> js_number" where
  "finalWidth rnd cw ch width height =
     (if js_gt (js_div rnd cw (imgRatio rnd width height)) ch
      then js_mul rnd ch (imgRatio rnd width height)
      else cw)"

text \<open>The centring: \<^verbatim>\<open>x\<close> and \<^verbatim>\<open>y\<close> for margin size \<open>ms\<close>.\<close>

definition place_x ::
  "(real \<Rightarrow> js_number) \<Rightarrow> js_number \<Rightarrow> js_number \<Rightarrow> js_number \<Rightarrow> js_number \<Rightarrow> js_number
     \<Rightarrow> js_number" where
  "place_x rnd ms cw ch width height =
     js_add rnd ms (js_div rnd (js_sub rnd cw (finalWidth rnd cw ch width height)) (Num 2))"

definition place_y ::
  "(real \<Rightarrow> js_number) \<Rightarrow> js_number \<Rightarrow> js_number \<Rightarrow> js_number \<Rightarrow> js_number \<Rightarrow> js_number
     \<Rightarrow> js_number" where
  "place_y rnd ms cw ch width height =
     js_add rnd ms (js_div rnd (js_sub rnd ch (finalHeight rnd cw ch width height)) (Num 2))"

text \<open>
  The arguments \<^verbatim>\<open>x, y, finalWidth, finalHeight\<close> of \<^verbatim>\<open>doc.addImage\<close> for an image of
  \<open>width\<close> by \<open>height\<close> pixels. The page sizes and margins are whole numbers of millimetres,
  which doubles hold exactly.
\<close>

definition addImage_args ::
  "(real \<Rightarrow> js_number) \<Rightarrow> PdfOptions \<Rightarrow> nat \<Rightarrow> nat
     \<Rightarrow> js_number \<times> js_number \<times> js_number \<times> js_number" where
  "addImage_args rnd options width height =
     (let ms = Num (marginSize options); cw = Num (contentWidth options);
          ch = Num (contentHeight options); w = Num (real width); h = Num (real height)
      in (place_x rnd ms cw ch w h, place_y rnd ms cw ch w h,
          finalWidth rnd cw ch w h, finalHeight rnd cw ch w h))"

section \<open>The host environment\<close>

text \<open>
  The calls a document run makes, in the order it makes them: the progress callback, the
  jsPDF methods, and the rasterisation \<^verbatim>\<open>getImageData\<close>.
\<close>

datatype pdf_call =
    NewJsPDF PdfOrientation
  | Progress nat
  | AddPage
  | GetImageData File
  | AddImage string "js_number \<times> js_number \<times> js_number \<times> js_number"
  | DocText string real real
  | Output

datatype Error = LoadError string | JsPDFError | TypeError

text \<open>
  What the browser and the libraries decide, as parameters of a run:
  \<^item> \<open>convertWebPToJpeg\<close>: the outcome of the promise of \<^verbatim>\<open>convertWebPToJpeg(file)\<close>, the JPEG
    blob or the rejection;
  \<^item> \<open>settles_next\<close>: which of the conversions in flight settles next (its index in the list of
    those in flight, taken modulo its length);
  \<^item> \<open>getImageData\<close>: the outcome of the promise of \<^verbatim>\<open>getImageData(file)\<close>, the data URL with
    the pixel width and height or the rejection;
  \<^item> \<open>jsPDF_throws\<close>: whether a jsPDF call throws, after the calls made so far;
  \<^item> \<open>jsPDF_output\<close>: the blob of \<^verbatim>\<open>doc.output('blob')\<close> after the calls made so far.
\<close>

record Host =
  convertWebPToJpeg :: "File \<Rightarrow> Error + Blob"
  settles_next :: "FileItem list \<Rightarrow> nat"
  getImageData :: "File \<Rightarrow> Error + (string \<times> nat \<times> nat)"
  jsPDF_throws :: "pdf_call list \<Rightarrow> pdf_call \<Rightarrow> bool"
  jsPDF_output :: "pdf_call list \<Rightarrow> Blob"

section \<open>Batch conversion scheduler (App.tsx)\<close>

text \<open>
  The effects of a conversion run in the order of their execution: the calls of
  \<^verbatim>\<open>updateStatus\<close>, and \<open>Dispatch item\<close> for the call \<^verbatim>\<open>convertWebPToJpeg(item.file)\<close> made by
  the callback of \<open>item\<close>.
\<close>

datatype jpeg_event =
    UpdateStatus string ConversionStatus PartialFileItem
  | Dispatch FileItem

definition BATCH_SIZE :: nat where
  "BATCH_SIZE = 3"

text \<open>\<^verbatim>\<open>xs.slice(b, e)\<close> for \<open>0 \<le> b \<le> e\<close>.\<close>

definition slice :: "nat \<Rightarrow> nat \<Rightarrow> 'a list \<Rightarrow> 'a list" where
  "slice b e xs = take (e - b) (drop b xs)"

text \<open>
  The continuation of one callback after its \<^verbatim>\<open>await\<close>: \<^verbatim>\<open>COMPLETED\<close> with the blob when the
  promise resolved, \<^verbatim>\<open>ERROR\<close> with the fixed message when it rejected.
\<close>

definition settle :: "Host \<Rightarrow> FileItem \<Rightarrow> jpeg_event" where
  "settle h item =
     (case convertWebPToJpeg h (file' item) of
        Inr jpegBlob \<Rightarrow>
          UpdateStatus (id' item) COMPLETED (no_extra\<lparr>patch_convertedBlob := Some (Some jpegBlob)\<rparr>)
      | Inl err \<Rightarrow>
          UpdateStatus (id' item) ERROR (no_extra\<lparr>patch_error := Some (Some ''Conversion failed'')\<rparr>))"

text \<open>
  The conversions in flight settle one at a time, in the order the host chooses; each
  continuation runs when its conversion settles.
\<close>

function settle_all :: "Host \<Rightarrow> FileItem list \<Rightarrow> jpeg_event list" where
  "settle_all h inflight =
     (if inflight = [] then []
      else (let k = settles_next h inflight mod length inflight
            in settle h (inflight ! k) # settle_all h (take k inflight @ drop (Suc k) inflight)))"
  by pat_completeness auto
termination
proof (relation "measure (\<lambda>(h, inflight). length inflight)")
  show "wf (measure (\<lambda>(h :: Host, inflight :: FileItem list). length inflight))"
    by simp
next
  fix h :: Host and inflight :: "FileItem list" and k :: nat
  assume ne: "inflight \<noteq> []" and k: "k = settles_next h inflight mod length inflight"
  from ne k have "k < length inflight"
    by simp
  then show "((h, take k inflight @ drop (Suc k) inflight), (h, inflight))
      \<in> measure (\<lambda>(h, inflight). length inflight)"
    by simp
qed

text \<open>
  The synchronous part of \<^verbatim>\<open>batch.map(async (item) => ...)\<close>: each callback runs up to its
  \<^verbatim>\<open>await\<close>, that is, it calls \<^verbatim>\<open>updateStatus\<close> and then \<^verbatim>\<open>convertWebPToJpeg\<close>.
\<close>

definition batch_map :: "FileItem list \<Rightarrow> jpeg_event list" where
  "batch_map batch =
     concat (map (\<lambda>item. [UpdateStatus (id' item) CONVERTING no_extra, Dispatch item]) batch)"

text \<open>\<^verbatim>\<open>await Promise.all(batch.map(...))\<close> returns when every callback has finished.\<close>

definition promise_all :: "Host \<Rightarrow> FileItem list \<Rightarrow> jpeg_event list" where
  "promise_all h batch = batch_map batch @ settle_all h batch"

text \<open>
  The loop of \<^verbatim>\<open>startJpegConversion\<close> from index \<open>i\<close>: the effects of each iteration, one
  list per iteration.
\<close>

function jpeg_loop :: "Host \<Rightarrow> FileItem list \<Rightarrow> nat \<Rightarrow> jpeg_event list list" where
  "jpeg_loop h pendingFiles i =
     (if i < length pendingFiles
      then (let batch = slice i (i + BATCH_SIZE) pendingFiles
            in promise_all h batch # jpeg_loop h pendingFiles (i + BATCH_SIZE))
      else [])"
  by pat_completeness auto
termination
  by (relation "measure (\<lambda>(h, pendingFiles, i). length pendingFiles - i)")
     (auto simp: BATCH_SIZE_def)

definition startJpegConversion :: "Host \<Rightarrow> FileItem list \<Rightarrow> jpeg_event list" where
  "startJpegConversion h pendingFiles = concat (jpeg_loop h pendingFiles 0)"

text \<open>The effect of one event on the collection.\<close>

fun apply_event :: "jpeg_event \<Rightarrow> FileItem list \<Rightarrow> FileItem list" where
  "apply_event (UpdateStatus i s extra) prev = updateStatus i s extra prev"
| "apply_event (Dispatch item) prev = prev"

section \<open>Document assembler (pdfService.ts, App.tsx)\<close>

text \<open>A jsPDF call after the calls \<open>tr\<close>: it throws, or it is made.\<close>

definition jsPDF_call :: "Host \<Rightarrow> pdf_call \<Rightarrow> pdf_call list \<Rightarrow> Error + pdf_call list" where
  "jsPDF_call h c tr = (if jsPDF_throws h tr c then Inl JsPDFError else Inr (tr @ [c]))"

text \<open>The \<^verbatim>\<open>try\<close> block of a page, after the call of \<^verbatim>\<open>getImageData\<close> was made.\<close>

definition try_block :: "Host \<Rightarrow> PdfOptions \<Rightarrow> File \<Rightarrow> pdf_call list \<Rightarrow> Error + pdf_call list" where
  "try_block h options f tr =
     (case getImageData h f of
        Inl err \<Rightarrow> Inl err
      | Inr (dataUrl, width, height) \<Rightarrow>
          jsPDF_call h (AddImage dataUrl (addImage_args binary64 options width height)) tr)"

text \<open>
  The body of the loop of \<^verbatim>\<open>generatePdf\<close> for page \<open>i\<close> with file \<open>f\<close>. The state is the
  caller's state \<open>s\<close>, which the callback \<^verbatim>\<open>onProgress\<close> changes, and the calls made so far; the
  result is the new state and the exception that leaves the loop, if any. The \<^verbatim>\<open>catch\<close> block
  makes the \<^verbatim>\<open>doc.text\<close> call.
\<close>

definition pdf_page ::
  "Host \<Rightarrow> PdfOptions \<Rightarrow> (nat \<Rightarrow> 's \<Rightarrow> Error + 's) \<Rightarrow> File \<Rightarrow> nat \<Rightarrow> 's \<times> pdf_call list
     \<Rightarrow> ('s \<times> pdf_call list) \<times> Error option" where
  "pdf_page h options onProgress f i w =
     (case w of (s, tr) \<Rightarrow>
        (case onProgress i s of
           Inl err \<Rightarrow> ((s, tr), Some err)
         | Inr s1 \<Rightarrow>
             (let tr1 = tr @ [Progress i]
              in case (if i > 0 then jsPDF_call h AddPage tr1 else Inr tr1) of
                   Inl err \<Rightarrow> ((s1, tr1), Some err)
                 | Inr tr2 \<Rightarrow>
                     (let tr3 = tr2 @ [GetImageData f]
                      in case try_block h options f tr3 of
                           Inr tr4 \<Rightarrow> ((s1, tr4), None)
                         | Inl caught \<Rightarrow>
                             (case jsPDF_call h
                                     (DocText (''Error loading image: '' @ name f) 10 10) tr3 of
                                Inl err \<Rightarrow> ((s1, tr3), Some err)
                              | Inr tr5 \<Rightarrow> ((s1, tr5), None))))))"

function pdf_loop ::
  "Host \<Rightarrow> PdfOptions \<Rightarrow> (nat \<Rightarrow> 's \<Rightarrow> Error + 's) \<Rightarrow> File list \<Rightarrow> nat \<Rightarrow> 's \<times> pdf_call list
     \<Rightarrow> ('s \<times> pdf_call list) \<times> Error option" where
  "pdf_loop h options onProgress fs i w =
     (if i < length fs
      then (case pdf_page h options onProgress (fs ! i) i w of
              (w', Some err) \<Rightarrow> (w', Some err)
            | (w', None) \<Rightarrow> pdf_loop h options onProgress fs (Suc i) w')
      else (w, None))"
  by pat_completeness auto
termination
  by (relation "measure (\<lambda>(h, options, onProgress, fs, i, w). length fs - i)") auto

text \<open>
  \<^verbatim>\<open>generatePdf(files, options, onProgress)\<close> from the caller's state \<open>s\<close>: the caller's state
  and the calls made at the end, and the blob or the exception that rejects the promise.
\<close>

definition generatePdf ::
  "Host \<Rightarrow> File list \<Rightarrow> PdfOptions \<Rightarrow> (nat \<Rightarrow> 's \<Rightarrow> Error + 's) \<Rightarrow> 's
     \<Rightarrow> ('s \<times> pdf_call list) \<times> (Error + Blob)" where
  "generatePdf h fs options onProgress s =
     (case jsPDF_call h (NewJsPDF (orientation options)) [] of
        Inl err \<Rightarrow> ((s, []), Inl err)
      | Inr tr0 \<Rightarrow>
          (case pdf_loop h options onProgress fs 0 (s, tr0) of
             (w, Some err) \<Rightarrow> (w, Inl err)
           | ((s', tr), None) \<Rightarrow>
               (case jsPDF_call h Output tr of
                  Inl err \<Rightarrow> ((s', tr), Inl err)
                | Inr tr' \<Rightarrow> ((s', tr'), Inr (jsPDF_output h tr)))))"

text \<open>
  The callback that \<^verbatim>\<open>startPdfConversion\<close> passes as \<^verbatim>\<open>onProgress\<close>; \<open>fs\<close> is the \<^verbatim>\<open>files\<close> of
  the closure. \<^verbatim>\<open>files[index].id\<close> throws a \<^verbatim>\<open>TypeError\<close> when the index is out of range.
\<close>

definition progress_callback :: "FileItem list \<Rightarrow> nat \<Rightarrow> FileItem list \<Rightarrow> Error + FileItem list" where
  "progress_callback fs index prev =
     (if index < length fs then Inr (updateStatus (id' (fs ! index)) COMPLETED no_extra prev)
      else Inl TypeError)"

text \<open>\<^verbatim>\<open>prev.map(f => ({ ...f, status: ConversionStatus.CONVERTING }))\<close>\<close>

definition resetConverting :: "FileItem list \<Rightarrow> FileItem list" where
  "resetConverting prev = map (\<lambda>f. f\<lparr>status := CONVERTING\<rparr>) prev"

text \<open>\<^verbatim>\<open>prev.map(f => ({ ...f, status: ConversionStatus.ERROR, error: 'PDF Generation failed' }))\<close>\<close>

definition markAllFailed :: "FileItem list \<Rightarrow> FileItem list" where
  "markAllFailed prev =
     map (\<lambda>f. f\<lparr>status := ERROR, error := Some ''PDF Generation failed''\<rparr>) prev"

text \<open>
  The values that the state \<^verbatim>\<open>files\<close> takes are kept, oldest first: a callback on the
  collection becomes a callback that adds the new collection to those before it.
\<close>

definition with_history :: "(nat \<Rightarrow> 's \<Rightarrow> Error + 's) \<Rightarrow> nat \<Rightarrow> 's list \<Rightarrow> Error + 's list" where
  "with_history cb index hist =
     (case cb index (last hist) of Inl err \<Rightarrow> Inl err | Inr s \<Rightarrow> Inr (hist @ [s]))"

text \<open>
  The \<^verbatim>\<open>try\<close> block of \<^verbatim>\<open>startPdfConversion\<close> on the state \<open>st\<close>, whose \<^verbatim>\<open>files\<close> and
  \<^verbatim>\<open>pdfOptions\<close> are those of the closure (no other handler runs during the run): the first
  value of \<^verbatim>\<open>files\<close> is that of the \<^verbatim>\<open>setFiles\<close> call before the \<^verbatim>\<open>try\<close>, which resets every
  status; each call of the callback adds one.
\<close>

definition pdf_run :: "Host \<Rightarrow> AppState \<Rightarrow> (FileItem list list \<times> pdf_call list) \<times> (Error + Blob)" where
  "pdf_run h st =
     (let fileObjects = map file' (files st)
      in generatePdf h fileObjects (pdfOptions st) (with_history (progress_callback (files st)))
           [resetConverting (files st)])"

text \<open>
  The values of \<^verbatim>\<open>files\<close> during \<^verbatim>\<open>startPdfConversion\<close>, one for each \<^verbatim>\<open>setFiles\<close> call, in
  order; the \<^verbatim>\<open>catch\<close> block adds the collection with every item failed.
\<close>

definition startPdfConversion_files :: "Host \<Rightarrow> AppState \<Rightarrow> FileItem list list" where
  "startPdfConversion_files h st =
     (case pdf_run h st of
        ((hist, tr), Inr blob) \<Rightarrow> hist
      | ((hist, tr), Inl err) \<Rightarrow> hist @ [markAllFailed (last hist)])"

text \<open>The state after \<^verbatim>\<open>startPdfConversion\<close>.\<close>

definition startPdfConversion :: "Host \<Rightarrow> AppState \<Rightarrow> AppState" where
  "startPdfConversion h st =
     (case pdf_run h st of
        ((hist, tr), Inr blob) \<Rightarrow> st\<lparr>files := last hist, pdfBlob := Some blob\<rparr>
      | ((hist, tr), Inl err) \<Rightarrow> st\<lparr>files := markAllFailed (last hist)\<rparr>)"

text \<open>The selection of \<^verbatim>\<open>startConversion\<close> in JPEG mode.\<close>

definition pendingFiles :: "FileItem list \<Rightarrow> FileItem list" where
  "pendingFiles fs = filter (\<lambda>f. status f = IDLE \<or> status f = ERROR) fs"

definition startConversion :: "Host \<Rightarrow> AppState \<Rightarrow> AppState" where
  "startConversion h st =
     (if files st = [] then st
      else (let st1 = st\<lparr>isProcessing := True\<rparr>;
                st2 = (if mode st = JPEG
                       then (let pending = pendingFiles (files st)
                             in if length pending > 0
                                then st1\<lparr>files := fold apply_event (startJpegConversion h pending)
                                                     (files st1)\<rparr>
                                else st1)
                       else startPdfConversion h st1)
            in st2\<lparr>isProcessing := False\<rparr>))"

section \<open>Output packager (imageService.ts, App.tsx)\<close>

text \<open>
  \<^verbatim>\<open>name.replace(/\.[^/.]+$/, "")\<close>: the first position, from the left, where the pattern
  matches is replaced by the empty string. The pattern matches at a dot that is followed, up
  to the end of the string, by one or more characters other than \<^verbatim>\<open>/\<close> and \<^verbatim>\<open>.\<close>.
\<close>

fun replace_ext :: "string \<Rightarrow> string" where
  "replace_ext [] = []"
| "replace_ext (c # cs) =
     (if c = CHR ''.'' \<and> cs \<noteq> [] \<and> list_all (\<lambda>d. d \<noteq> CHR ''/'' \<and> d \<noteq> CHR ''.'') cs
      then []
      else c # replace_ext cs)"

definition fileName :: "string \<Rightarrow> string" where
  "fileName nm = replace_ext nm @ ''.jpg''"

text \<open>
  Modelled from the spec: the archive container of the JSZip library, which is not part of
  the repository, is a store of entries keyed by their exact name, in which \<^verbatim>\<open>zip.file(name, data)\<close>
  writes the entry of that name.
\<close>

definition zip_file :: "string \<Rightarrow> Blob \<Rightarrow> (string \<rightharpoonup> Blob) \<Rightarrow> (string \<rightharpoonup> Blob)" where
  "zip_file nm blob z = z(nm \<mapsto> blob)"

text \<open>\<^verbatim>\<open>zipAndDownload\<close>: the entries of the archive that is downloaded.\<close>

definition zipAndDownload :: "(string \<times> Blob) list \<Rightarrow> (string \<rightharpoonup> Blob)" where
  "zipAndDownload fs = fold (\<lambda>f z. zip_file (fileName (fst f)) (snd f) z) fs Map.empty"

text \<open>
  \<^verbatim>\<open>handleDownload\<close> in JPEG mode: the archive downloaded, or \<open>None\<close> when the handler returns
  without a download.
\<close>

definition completedFiles :: "FileItem list \<Rightarrow> FileItem list" where
  "completedFiles fs = filter (\<lambda>f. status f = COMPLETED \<and> convertedBlob f \<noteq> None) fs"

definition handleDownload_JPEG :: "AppState \<Rightarrow> (string \<rightharpoonup> Blob) option" where
  "handleDownload_JPEG st =
     (if length (completedFiles (files st)) = 0 then None
      else Some (zipAndDownload
                   (map (\<lambda>f. (name (file' f), the (convertedBlob f))) (completedFiles (files st)))))"

section \<open>Reading runs and collections\<close>

text \<open>
  Definitions in which the theorems are stated; they are not part of the program.
\<close>

text \<open>
  Reading a list of events: the items dispatched, in order, and whether an event is the
  settlement of the item with identifier \<open>i\<close>, that is, its transition to \<^verbatim>\<open>COMPLETED\<close> or
  \<^verbatim>\<open>ERROR\<close>.
\<close>

fun dispatched :: "jpeg_event list \<Rightarrow> FileItem list" where
  "dispatched [] = []"
| "dispatched (Dispatch item # es) = item # dispatched es"
| "dispatched (UpdateStatus i s extra # es) = dispatched es"

fun is_settle :: "string \<Rightarrow> jpeg_event \<Rightarrow> bool" where
  "is_settle i (UpdateStatus j s extra) = (j = i \<and> (s = COMPLETED \<or> s = ERROR))"
| "is_settle i (Dispatch item) = False"

text \<open>
  The calls expected for page \<open>i\<close> after the calls \<open>tr\<close>, in a run in which only
  \<^verbatim>\<open>addImage\<close> may throw: the progress signal, a new page for every page but the first, the
  rasterisation, and the image or, when the rasterisation failed or \<^verbatim>\<open>addImage\<close> threw, the
  text that names the file.
\<close>

definition error_marker :: "File \<Rightarrow> pdf_call" where
  "error_marker f = DocText (''Error loading image: '' @ name f) 10 10"

definition page_content :: "Host \<Rightarrow> PdfOptions \<Rightarrow> File \<Rightarrow> pdf_call list \<Rightarrow> pdf_call" where
  "page_content h options f tr =
     (case getImageData h f of
        Inl err \<Rightarrow> error_marker f
      | Inr (dataUrl, width, height) \<Rightarrow>
          (if jsPDF_throws h tr (AddImage dataUrl (addImage_args binary64 options width height))
           then error_marker f
           else AddImage dataUrl (addImage_args binary64 options width height)))"

definition page_start :: "File list \<Rightarrow> nat \<Rightarrow> pdf_call list" where
  "page_start fs i = [Progress i] @ (if 0 < i then [AddPage] else []) @ [GetImageData (fs ! i)]"

definition page_calls :: "Host \<Rightarrow> PdfOptions \<Rightarrow> File list \<Rightarrow> nat \<Rightarrow> pdf_call list \<Rightarrow> pdf_call list" where
  "page_calls h options fs i tr =
     page_start fs i @ [page_content h options (fs ! i) (tr @ page_start fs i)]"

text \<open>The calls expected for the pages \<open>is\<close>, one page after the other, after the calls \<open>tr\<close>.\<close>

definition pages_calls ::
  "Host \<Rightarrow> PdfOptions \<Rightarrow> File list \<Rightarrow> nat list \<Rightarrow> pdf_call list \<Rightarrow> pdf_call list" where
  "pages_calls h options fs is tr = fold (\<lambda>i tr. tr @ page_calls h options fs i tr) is tr"

text \<open>The collection after the progress callbacks of the pages before page \<open>k\<close>.\<close>

definition after_progress :: "FileItem list \<Rightarrow> nat \<Rightarrow> FileItem list" where
  "after_progress fs k =
     fold (\<lambda>j. updateStatus (id' (fs ! j)) COMPLETED no_extra) [0..<k] (resetConverting fs)"

text \<open>
  The invariant of the data model, on one item: an output exactly when the status is
  \<^verbatim>\<open>COMPLETED\<close>, an error exactly when it is \<^verbatim>\<open>ERROR\<close>.
\<close>

definition item_invariant :: "FileItem \<Rightarrow> bool" where
  "item_invariant f =
     (case status f of
        COMPLETED \<Rightarrow> convertedBlob f \<noteq> None \<and> error f = None
      | ERROR \<Rightarrow> error f \<noteq> None \<and> convertedBlob f = None
      | IDLE \<Rightarrow> convertedBlob f = None \<and> error f = None
      | CONVERTING \<Rightarrow> convertedBlob f = None \<and> error f = None)"

section \<open>Example inputs\<close>

text \<open>Concrete items and states at which the theorems below are instantiated.\<close>

definition itemA :: FileItem where
  "itemA = \<lparr>id' = ''a'', file' = \<lparr>name = ''photo.webp'', bytes = ''w''\<rparr>, previewUrl = ''blob:a'',
     status = ERROR, convertedBlob = None, error = Some ''Conversion failed''\<rparr>"

definition itemB :: FileItem where
  "itemB = \<lparr>id' = ''b'', file' = \<lparr>name = ''b.webp'', bytes = ''x''\<rparr>, previewUrl = ''blob:b'',
     status = IDLE, convertedBlob = None, error = None\<rparr>"

definition state0 :: AppState where
  "state0 = \<lparr>mode = JPEG, files = [itemA, itemB], isProcessing = False, pdfBlob = None,
     pdfOptions = \<lparr>margin = small, orientation = portrait\<rparr>, revoked = []\<rparr>"

definition itemDone :: "string \<Rightarrow> string \<Rightarrow> Blob \<Rightarrow> FileItem" where
  "itemDone i nm blob = \<lparr>id' = i, file' = \<lparr>name = nm, bytes = ''w''\<rparr>, previewUrl = ''blob:'' @ i,
     status = COMPLETED, convertedBlob = Some blob, error = None\<rparr>"

definition state1 :: AppState where
  "state1 = \<lparr>mode = JPEG,
     files = [itemDone ''1'' ''a.webp'' ''first'', itemDone ''2'' ''a.png'' ''second''],
     isProcessing = False, pdfBlob = None,
     pdfOptions = \<lparr>margin = small, orientation = portrait\<rparr>, revoked = []\<rparr>"

text \<open>
  A host on which every file but \<^verbatim>\<open>broken.webp\<close> is decoded, as a 2 by 1 image, and no jsPDF
  call throws. And the same host with a document that cannot be output.
\<close>

definition host_good :: Host where
  "host_good =
     \<lparr>convertWebPToJpeg = (\<lambda>f. if name f = ''broken.webp'' then Inl (LoadError ''Failed to load image'')
                                else Inr (''jpeg:'' @ bytes f)),
      settles_next = (\<lambda>inflight. 1),
      getImageData = (\<lambda>f. if name f = ''broken.webp'' then Inl (LoadError ''Failed to load image'')
                           else Inr (''data:'' @ bytes f, 2, 1)),
      jsPDF_throws = (\<lambda>tr c. False),
      jsPDF_output = (\<lambda>tr. ''pdf'')\<rparr>"

definition host_no_output :: Host where
  "host_no_output = host_good\<lparr>jsPDF_throws := (\<lambda>tr c. c = Output)\<rparr>"

definition itemIdle :: "string \<Rightarrow> string \<Rightarrow> FileItem" where
  "itemIdle i nm = \<lparr>id' = i, file' = \<lparr>name = nm, bytes = i\<rparr>, previewUrl = ''blob:'' @ i,
     status = IDLE, convertedBlob = None, error = None\<rparr>"

definition state2 :: AppState where
  "state2 = \<lparr>mode = PDF, files = [itemIdle ''1'' ''a.webp'', itemIdle ''2'' ''broken.webp''],
     isProcessing = False, pdfBlob = None,
     pdfOptions = \<lparr>margin = small, orientation = portrait\<rparr>, revoked = []\<rparr>"

definition state3 :: AppState where
  "state3 = \<lparr>mode = JPEG,
     files = [itemIdle ''1'' ''a.webp'', itemIdle ''2'' ''b.webp'', itemDone ''3'' ''c.webp'' ''jpeg:3'',
              itemIdle ''4'' ''d.webp'',
              (itemIdle ''5'' ''e.webp'')\<lparr>status := ERROR, error := Some ''Conversion failed''\<rparr>,
              itemIdle ''6'' ''f.webp'', (itemIdle ''7'' ''g.webp'')\<lparr>status := CONVERTING\<rparr>,
              itemIdle ''8'' ''broken.webp'', itemIdle ''9'' ''i.webp''],
     isProcessing = False, pdfBlob = None,
     pdfOptions = \<lparr>margin = small, orientation = portrait\<rparr>, revoked = []\<rparr>"

text \<open>
  A session: one file is added to the empty collection and its conversion fails; the
  conversion is then run again on a host that decodes every file.
\<close>

definition state_empty :: AppState where
  "state_empty = \<lparr>mode = JPEG, files = [], isProcessing = False, pdfBlob = None,
     pdfOptions = \<lparr>margin = small, orientation = portrait\<rparr>, revoked = []\<rparr>"

definition state_added :: AppState where
  "state_added =
     handleFilesAdded [(\<lparr>name = ''broken.webp'', bytes = ''x''\<rparr>, ''1'', ''blob:1'')] state_empty"

definition state_failed :: AppState where
  "state_failed = startConversion host_good state_added"

definition host_recovered :: Host where
  "host_recovered = host_good\<lparr>convertWebPToJpeg := (\<lambda>f. Inr (''jpeg:'' @ bytes f))\<rparr>"

section \<open>Theorems\<close>

text \<open>
  Claim C7. For every choice of options the page is the A4 reference size, 210 by 297 in
  portrait and 297 by 210 in landscape; the content box is the page less twice the margin size
  in both dimensions; with margin \<open>none\<close> the margin size is 0 and the content box is the page.
\<close>

theorem C7_page_geometry:
  "pageWidth \<lparr>margin = m, orientation = portrait\<rparr> = 210
   \<and> pageHeight \<lparr>margin = m, orientation = portrait\<rparr> = 297
   \<and> pageWidth \<lparr>margin = m, orientation = landscape\<rparr> = 297
   \<and> pageHeight \<lparr>margin = m, orientation = landscape\<rparr> = 210
   \<and> contentWidth opts = pageWidth opts - 2 * marginSize opts
   \<and> contentHeight opts = pageHeight opts - 2 * marginSize opts
   \<and> marginSize \<lparr>margin = none, orientation = ori\<rparr> = 0
   \<and> contentWidth \<lparr>margin = none, orientation = ori\<rparr> = pageWidth \<lparr>margin = none, orientation = ori\<rparr>
   \<and> contentHeight \<lparr>margin = none, orientation = ori\<rparr> = pageHeight \<lparr>margin = none, orientation = ori\<rparr>"
  by (simp add: pageWidth_def pageHeight_def contentWidth_def contentHeight_def marginSize_def
      PAGE_SIZE_a4_width_def PAGE_SIZE_a4_height_def)

subsection \<open>The rounding to doubles\<close>

lemma floor_log2_eq:
  fixes x :: real
  assumes "0 < x" and "2 powi e \<le> x" and "x < 2 powi (e + 1)"
  shows "\<lfloor>log 2 x\<rfloor> = e"
proof -
  have "(2::real) powr real_of_int e = 2 powi e"
    by (simp add: powr_real_of_int')
  moreover have "(2::real) powr (real_of_int e + 1) = 2 powi (e + 1)"
    using powr_real_of_int' [of 2 "e + 1"] by simp
  ultimately show ?thesis
    using assms by (simp add: floor_log_eq_powr_iff)
qed

lemma binary64_ulp_eval:
  fixes x :: real
  assumes "0 < x" and "2 powi e \<le> x" and "x < 2 powi (e + 1)" and "- 1022 \<le> e"
  shows "binary64_ulp x = 2 powi (e - 52)"
  using floor_log2_eq [OF assms(1-3)] assms(1,4) by (simp add: binary64_ulp_def)

lemma binary64_eval:
  fixes x :: real
  assumes x: "0 < x" and lo: "2 powi e \<le> x" and hi: "x < 2 powi (e + 1)"
    and e: "- 1022 \<le> e" "e \<le> 1022"
    and m: "round_half_even (x / 2 powi (e - 52)) = m" and mb: "0 \<le> m" "m \<le> 2 ^ 53"
  shows "binary64 x = Num (of_int m * 2 powi (e - 52))"
proof -
  have u: "binary64_ulp x = 2 powi (e - 52)"
    using x lo hi e(1) by (rule binary64_ulp_eval)
  from mb(2) have "real_of_int m \<le> real_of_int (2 ^ 53)"
    by (simp only: of_int_le_iff)
  then have m53: "real_of_int m \<le> 2 powi 53"
    by simp
  have p: "(0::real) \<le> 2 powi (e - 52)"
    by simp
  have "of_int m * (2::real) powi (e - 52) \<le> 2 powi 53 * 2 powi (e - 52)"
    using m53 p by (rule mult_right_mono)
  also have "\<dots> = 2 powi (53 + (e - 52))"
    by (rule power_int_add [symmetric]) simp
  also have "\<dots> \<le> 2 powi 1023"
    using e(2) by (intro power_int_increasing) simp_all
  also have "\<dots> < (2::real) ^ 1024"
    by simp
  finally have "of_int m * (2::real) powi (e - 52) < 2 ^ 1024" .
  moreover have "0 \<le> of_int m * (2::real) powi (e - 52)"
    using mb(1) by simp
  ultimately have "\<not> 2 ^ 1024 \<le> \<bar>of_int m * (2::real) powi (e - 52)\<bar>"
    by linarith
  with x show ?thesis
    by (simp only: binary64_def u m Let_def) simp
qed

lemma b64_7_10: "binary64 (7 / 10) = Num (3152519739159347 / 4503599627370496)"
  using binary64_eval [of "7 / 10" "- 1" 6305039478318694]
  by (simp add: round_half_even_def Let_def)

lemma b64_210_r: "binary64 (945755921747804160 / 3152519739159347) = Num (300)"
  using binary64_eval [of "945755921747804160 / 3152519739159347" "8" 5277655813324800]
  by (simp add: round_half_even_def Let_def)

lemma b64_297_r: "binary64 (936298362530326059 / 4503599627370496) = Num (1828707739317043 / 8796093022208)"
  using binary64_eval [of "936298362530326059 / 4503599627370496" "7" 7314830957268172]
  by (simp add: round_half_even_def Let_def)

lemma b64_210_fw: "binary64 (18471795346637 / 8796093022208) = Num (18471795346637 / 8796093022208)"
  using binary64_eval [of "18471795346637 / 8796093022208" "1" 4728779608739072]
  by (simp add: round_half_even_def Let_def)

lemma b64_half: "binary64 (18471795346637 / 17592186044416) = Num (18471795346637 / 17592186044416)"
  using binary64_eval [of "18471795346637 / 17592186044416" "0" 4728779608739072]
  by (simp add: round_half_even_def Let_def)

lemma b64_4_3: "binary64 (4 / 3) = Num (6004799503160661 / 4503599627370496)"
  using binary64_eval [of "4 / 3" "0" 6004799503160661]
  by (simp add: round_half_even_def Let_def)

lemma b64_100_r: "binary64 (450359962737049600 / 6004799503160661) = Num (75)"
  using binary64_eval [of "450359962737049600 / 6004799503160661" "6" 5277655813324800]
  by (simp add: round_half_even_def Let_def)

lemma b64_25: "binary64 (25) = Num (25)"
  using binary64_eval [of "25" "4" 7036874417766400]
  by (simp add: round_half_even_def Let_def)

lemma b64_25_2: "binary64 (25 / 2) = Num (25 / 2)"
  using binary64_eval [of "25 / 2" "3" 7036874417766400]
  by (simp add: round_half_even_def Let_def)

lemma b64_0: "binary64 0 = Num 0"
  by (simp add: binary64_def)

lemma round_half_even_le:
  assumes "q \<le> of_int N"
  shows "round_half_even q \<le> N"
proof -
  have f: "\<lfloor>q\<rfloor> \<le> N"
    using assms by (simp add: floor_le_iff)
  show ?thesis
  proof (cases "\<lfloor>q\<rfloor> = N")
    case True
    with assms have "q - of_int \<lfloor>q\<rfloor> \<le> 0"
      by simp
    then show ?thesis
      using True by (simp add: round_half_even_def Let_def)
  next
    case False
    with f have "\<lfloor>q\<rfloor> + 1 \<le> N"
      by simp
    with f show ?thesis
      by (simp add: round_half_even_def Let_def)
  qed
qed

lemma round_half_even_nonneg:
  assumes "0 \<le> q"
  shows "0 \<le> round_half_even q"
proof -
  from assms have "0 \<le> \<lfloor>q\<rfloor>"
    by simp
  then show ?thesis
    by (simp add: round_half_even_def Let_def)
qed

lemma binary64_ulp_pos: "0 < binary64_ulp x"
  by (simp add: binary64_ulp_def)

lemma binary64_pos:
  assumes "0 < x"
  shows "binary64 x = PosInfinity \<or> (\<exists>y. binary64 x = Num y \<and> 0 \<le> y)"
proof -
  have "0 \<le> x / binary64_ulp x"
    using assms binary64_ulp_pos [of x] by simp
  then have "0 \<le> round_half_even (x / binary64_ulp x)"
    by (rule round_half_even_nonneg)
  then have "0 \<le> of_int (round_half_even (x / binary64_ulp x)) * binary64_ulp x"
    using binary64_ulp_pos [of x] by simp
  with assms show ?thesis
    by (simp add: binary64_def Let_def)
qed


lemma binary64_le_int:
  fixes x :: real and c :: int
  assumes x: "0 < x" and xc: "x \<le> of_int c" and c: "c < 2 ^ 53"
  shows "\<exists>y. binary64 x = Num y \<and> 0 \<le> y \<and> y \<le> of_int c"
proof -
  define k where "k = max \<lfloor>log 2 \<bar>x\<bar>\<rfloor> (- 1022) - 52"
  define u :: real where "u = 2 powi k"
  have u: "binary64_ulp x = u" and up: "0 < u"
    by (simp_all add: binary64_ulp_def u_def k_def)
  from c have "real_of_int c < real_of_int (2 ^ 53)"
    by (simp only: of_int_less_iff)
  then have c53: "real_of_int c < 2 ^ 53"
    by simp
  with xc have "x < 2 ^ 53"
    by linarith
  then have "log 2 x < 53"
    using x by (simp add: log_less_iff)
  then have "\<lfloor>log 2 x\<rfloor> \<le> 52"
    by (simp add: floor_le_iff)
  with x have k0: "k \<le> 0"
    by (simp add: k_def)
  define P :: real where "P = 2 ^ nat (- k)"
  define N where "N = c * 2 ^ nat (- k)"
  have Pp: "0 < P"
    by (simp add: P_def)
  have uP: "u = inverse P"
    using k0 by (simp add: u_def P_def power_int_def power_one_over inverse_eq_divide)
  have NP: "real_of_int N = of_int c * P"
    by (simp add: N_def P_def)
  have "x / u = x * P"
    by (simp add: uP divide_inverse)
  also have "\<dots> \<le> of_int c * P"
    using xc Pp by (simp add: mult_right_mono)
  finally have "x / u \<le> of_int N"
    by (simp only: NP)
  then have "round_half_even (x / u) \<le> N"
    by (rule round_half_even_le)
  then have "real_of_int (round_half_even (x / u)) \<le> real_of_int N"
    by (simp only: of_int_le_iff)
  then have "of_int (round_half_even (x / u)) * u \<le> of_int N * u"
    using up by (simp add: mult_right_mono)
  also have "of_int N * u = of_int c"
    using Pp by (simp add: NP uP)
  finally have le: "of_int (round_half_even (x / u)) * u \<le> of_int c" .
  have "0 \<le> round_half_even (x / u)"
    using x up by (intro round_half_even_nonneg) simp
  then have ge: "0 \<le> of_int (round_half_even (x / u)) * u"
    using up by simp
  have "(2::real) ^ 53 \<le> 2 ^ 1024"
    by simp
  with c53 le ge have "\<not> 2 ^ 1024 \<le> \<bar>of_int (round_half_even (x / u)) * u\<bar>"
    by linarith
  with x le ge show ?thesis
    by (simp add: binary64_def u Let_def)
qed

lemma round_half_even_error: "\<bar>of_int (round_half_even q) - q\<bar> \<le> 1 / 2"
proof -
  have "of_int \<lfloor>q\<rfloor> \<le> q" and "q < of_int \<lfloor>q\<rfloor> + 1"
    by linarith+
  then show ?thesis
    by (auto simp: round_half_even_def Let_def)
qed

lemma floor_log2_le:
  fixes x :: real
  assumes "0 < x"
  shows "2 powi \<lfloor>log 2 x\<rfloor> \<le> x"
proof -
  have "2 powr real_of_int \<lfloor>log 2 x\<rfloor> \<le> 2 powr log 2 x"
    by (intro powr_mono) simp_all
  also have "\<dots> = x"
    using assms by simp
  finally show ?thesis
    by (simp add: powr_real_of_int')
qed

lemma floor_log2_less:
  fixes x :: real
  assumes "0 < x"
  shows "x < 2 powi (\<lfloor>log 2 x\<rfloor> + 1)"
proof -
  have "x = 2 powr log 2 x"
    using assms by simp
  also have "\<dots> < 2 powr real_of_int (\<lfloor>log 2 x\<rfloor> + 1)"
    by (intro powr_less_mono) simp_all
  finally have "x < 2 powr real_of_int (\<lfloor>log 2 x\<rfloor> + 1)" .
  moreover have "(2::real) powr real_of_int (\<lfloor>log 2 x\<rfloor> + 1) = 2 powi (\<lfloor>log 2 x\<rfloor> + 1)"
    by (rule powr_real_of_int') simp_all
  ultimately show ?thesis
    by (simp only:)
qed

lemma binary64_rel_error:
  fixes x :: real
  assumes x: "0 < x" and n: "2 powi (- 1022) \<le> x" and y: "binary64 x = Num y"
  shows "\<bar>y - x\<bar> \<le> x / 2 ^ 53"
proof -
  define e where "e = \<lfloor>log 2 x\<rfloor>"
  define u :: real where "u = 2 powi (e - 52)"
  have e: "- 1022 \<le> e"
  proof (rule ccontr)
    assume "\<not> - 1022 \<le> e"
    then have "e + 1 \<le> - 1022"
      by simp
    then have "(2::real) powi (e + 1) \<le> 2 powi (- 1022)"
      by (intro power_int_increasing) simp_all
    with floor_log2_less [OF x] n show False
      by (simp add: e_def)
  qed
  with x have u: "binary64_ulp x = u" and up: "0 < u"
    by (simp_all add: binary64_ulp_def u_def e_def)
  from y x have yv: "y = of_int (round_half_even (x / u)) * u"
    by (simp add: binary64_def u Let_def split: if_splits)
  have "y - x = (of_int (round_half_even (x / u)) - x / u) * u"
    using up by (simp add: yv left_diff_distrib)
  then have "\<bar>y - x\<bar> = \<bar>of_int (round_half_even (x / u)) - x / u\<bar> * \<bar>u\<bar>"
    by (simp only: abs_mult)
  also have "\<dots> = \<bar>of_int (round_half_even (x / u)) - x / u\<bar> * u"
    using up by simp
  also have "\<dots> \<le> 1 / 2 * u"
    using up round_half_even_error [of "x / u"] by (intro mult_right_mono) simp_all
  also have "1 / 2 * u = 2 powi e / 2 ^ 53"
    by (simp add: u_def power_int_diff)
  also have "\<dots> \<le> x / 2 ^ 53"
    using floor_log2_le [OF x] by (simp add: e_def divide_right_mono)
  finally show ?thesis .
qed

lemma b64_2: "binary64 (2) = Num (2)"
  using binary64_eval [of "2" "1" 4503599627370496]
  by (simp add: round_half_even_def Let_def)

lemma b64_95: "binary64 (95) = Num (95)"
  using binary64_eval [of "95" "6" 6685030696878080]
  by (simp add: round_half_even_def Let_def)

lemma b64_10: "binary64 (10) = Num (10)"
  using binary64_eval [of "10" "3" 5629499534213120]
  by (simp add: round_half_even_def Let_def)

lemma b64_182: "binary64 (182) = Num (182)"
  using binary64_eval [of "182" "7" 6403555720167424]
  by (simp add: round_half_even_def Let_def)

lemma b64_91: "binary64 (91) = Num (91)"
  using binary64_eval [of "91" "6" 6403555720167424]
  by (simp add: round_half_even_def Let_def)

lemma b64_101: "binary64 (101) = Num (101)"
  using binary64_eval [of "101" "6" 7107243161944064]
  by (simp add: round_half_even_def Let_def)

lemma args_2_1:
  "addImage_args binary64 \<lparr>margin = small, orientation = portrait\<rparr> 2 1
     = (Num 10, Num 101, Num 190, Num 95)"
  by (simp add: addImage_args_def place_x_def place_y_def finalWidth_def finalHeight_def
      imgRatio_def marginSize_def contentWidth_def contentHeight_def pageWidth_def pageHeight_def
      PAGE_SIZE_a4_width_def PAGE_SIZE_a4_height_def b64_0 b64_2 b64_95 b64_10 b64_182 b64_91
      b64_101)

subsection \<open>The fit of an image into the content box, in doubles\<close>

lemma fit_7_10:
  "finalWidth binary64 (Num 210) (Num 297) (Num 7) (Num 10)
     = Num (1828707739317043 / 8796093022208)"
  "finalHeight binary64 (Num 210) (Num 297) (Num 7) (Num 10) = Num 297"
  by (simp_all add: finalWidth_def finalHeight_def imgRatio_def b64_7_10 b64_210_r b64_297_r)

lemma place_7_10:
  "place_x binary64 (Num 0) (Num 210) (Num 297) (Num 7) (Num 10)
     = Num (18471795346637 / 17592186044416)"
  "place_y binary64 (Num 0) (Num 210) (Num 297) (Num 7) (Num 10) = Num 0"
  by (simp_all add: place_x_def place_y_def fit_7_10 b64_210_fw b64_half b64_0)

lemma fit_4_3:
  "finalWidth binary64 (Num 100) (Num 100) (Num 4) (Num 3) = Num 100"
  "finalHeight binary64 (Num 100) (Num 100) (Num 4) (Num 3) = Num 75"
  by (simp_all add: finalWidth_def finalHeight_def imgRatio_def b64_4_3 b64_100_r)

lemma abs_error_bounds:
  fixes y x d :: real
  assumes "\<bar>y - x\<bar> \<le> x * d"
  shows "x * (1 - d) \<le> y" and "y \<le> x * (1 + d)"
  using assms by (simp_all add: abs_le_iff algebra_simps)

lemma within_ratio:
  fixes t rho D :: real
  assumes "rho * (1 - D) \<le> t" and "t \<le> rho * (1 + D)"
  shows "\<bar>t - rho\<bar> \<le> rho * D"
  using assms by (simp add: abs_le_iff algebra_simps)

lemma ratio_mul:
  fixes rho r a ch d D :: real
  assumes rho: "0 < rho" and ch: "0 < ch" and d: "0 \<le> d" "d \<le> 1"
    and k1: "(1 + d) * (1 + d) \<le> 1 + D" and k2: "1 - D \<le> (1 - d) * (1 - d)"
    and r: "\<bar>r - rho\<bar> \<le> rho * d"
    and a: "\<bar>a - ch * r\<bar> \<le> ch * r * d"
  shows "\<bar>a / ch - rho\<bar> \<le> rho * D"
proof (rule within_ratio)
  note rb = abs_error_bounds [OF r] and ab = abs_error_bounds [OF a]
  have chn: "ch \<noteq> 0" and ch0: "0 \<le> ch"
    using ch by simp_all
  have e1: "ch * r * (1 + d) / ch = r * (1 + d)" and e2: "ch * r * (1 - d) / ch = r * (1 - d)"
    using chn by simp_all
  have "a / ch \<le> ch * r * (1 + d) / ch"
    using ab(2) ch0 by (rule divide_right_mono)
  also have "\<dots> = r * (1 + d)"
    by (rule e1)
  also have "\<dots> \<le> (rho * (1 + d)) * (1 + d)"
    using rb(2) d by (intro mult_right_mono) simp_all
  also have "\<dots> = rho * ((1 + d) * (1 + d))"
    by (simp only: mult.assoc)
  also have "\<dots> \<le> rho * (1 + D)"
    using k1 rho by (intro mult_left_mono) simp_all
  finally show "a / ch \<le> rho * (1 + D)" .
  have "rho * (1 - D) \<le> rho * ((1 - d) * (1 - d))"
    using k2 rho by (intro mult_left_mono) simp_all
  also have "\<dots> = (rho * (1 - d)) * (1 - d)"
    by (simp only: mult.assoc)
  also have "\<dots> \<le> r * (1 - d)"
    using rb(1) d by (intro mult_right_mono) simp_all
  also have "\<dots> = ch * r * (1 - d) / ch"
    by (rule e2 [symmetric])
  also have "\<dots> \<le> a / ch"
    using ab(1) ch0 by (rule divide_right_mono)
  finally show "rho * (1 - D) \<le> a / ch" .
qed

lemma ratio_div:
  fixes rho r b cw d D :: real
  assumes rho: "0 < rho" and cw: "0 < cw" and d: "0 \<le> d" "d < 1" and D: "0 \<le> D" "D < 1"
    and k3: "1 + d \<le> (1 + D) * (1 - d)" and k4: "(1 - D) * (1 + d) \<le> 1 - d"
    and r: "\<bar>r - rho\<bar> \<le> rho * d"
    and b: "\<bar>b - cw / r\<bar> \<le> cw / r * d"
  shows "0 < b \<and> \<bar>cw / b - rho\<bar> \<le> rho * D"
proof -
  note rb = abs_error_bounds [OF r] and bb = abs_error_bounds [OF b]
  have "0 < rho * (1 - d)"
    using rho d by simp
  with rb(1) have rp: "0 < r"
    by simp
  define q where "q = cw / r"
  have qp: "0 < q"
    using cw rp by (simp add: q_def)
  have rq: "r * q = cw"
    using rp by (simp add: q_def)
  have "0 < q * (1 - d)"
    using qp d by simp
  with bb(1) have bp: "0 < b"
    by (simp add: q_def)
  have "cw = r * q"
    by (simp only: rq)
  also have "\<dots> \<le> (rho * (1 + d)) * q"
    using rb(2) qp by (intro mult_right_mono) simp_all
  also have "\<dots> = rho * q * (1 + d)"
    by (simp only: mult.assoc mult.commute [of q])
  also have "\<dots> \<le> rho * q * ((1 + D) * (1 - d))"
    using k3 rho qp by (intro mult_left_mono) simp_all
  also have "\<dots> = rho * (1 + D) * (q * (1 - d))"
    by (simp only: mult.assoc mult.left_commute [of q])
  also have "\<dots> \<le> rho * (1 + D) * b"
  proof (rule mult_left_mono)
    show "q * (1 - d) \<le> b"
      using bb(1) by (simp add: q_def)
    show "0 \<le> rho * (1 + D)"
      using rho D(1) by simp
  qed
  finally have up: "cw \<le> rho * (1 + D) * b" .
  have "rho * (1 - D) * b \<le> rho * (1 - D) * (q * (1 + d))"
  proof (rule mult_left_mono)
    show "b \<le> q * (1 + d)"
      using bb(2) by (simp add: q_def)
    show "0 \<le> rho * (1 - D)"
      using rho D by simp
  qed
  also have "\<dots> = rho * q * ((1 - D) * (1 + d))"
    by (simp only: mult.assoc mult.left_commute [of q])
  also have "\<dots> \<le> rho * q * (1 - d)"
    using k4 rho qp by (intro mult_left_mono) simp_all
  also have "\<dots> = (rho * (1 - d)) * q"
    by (simp only: mult.assoc mult.commute [of q])
  also have "\<dots> \<le> r * q"
    using rb(1) qp by (intro mult_right_mono) simp_all
  also have "\<dots> = cw"
    by (rule rq)
  finally have lo: "rho * (1 - D) * b \<le> cw" .
  have "rho * (1 - D) \<le> cw / b" and "cw / b \<le> rho * (1 + D)"
    using up lo bp by (simp_all add: pos_le_divide_eq pos_divide_le_eq)
  then have "\<bar>cw / b - rho\<bar> \<le> rho * D"
    by (rule within_ratio)
  with bp show ?thesis
    by simp
qed

lemma normal_small: "(2::real) powi (- 1022) \<le> 1 / 2 ^ 54"
  by (simp add: power_int_minus divide_simps)

lemma binary64_rel_error':
  fixes x :: real
  assumes "1 / 2 ^ 54 \<le> x" and "binary64 x = Num y"
  shows "\<bar>y - x\<bar> \<le> x * (1 / 2 ^ 53)"
proof -
  have "(0::real) < 1 / 2 ^ 54"
    by simp
  with assms(1) have x: "0 < x"
    by linarith
  from normal_small assms(1) have "2 powi (- 1022) \<le> x"
    by linarith
  from binary64_rel_error [OF x this assms(2)] show ?thesis
    by simp
qed


lemma rounding_constants:
  "(1 + 1 / 2 ^ 53) * (1 + 1 / 2 ^ 53) \<le> (1 + 1 / 2 ^ 51 :: real)"
  "(1 - 1 / 2 ^ 51 :: real) \<le> (1 - 1 / 2 ^ 53) * (1 - 1 / 2 ^ 53)"
  "(1 + 1 / 2 ^ 53 :: real) \<le> (1 + 1 / 2 ^ 51) * (1 - 1 / 2 ^ 53)"
  "(1 - 1 / 2 ^ 51) * (1 + 1 / 2 ^ 53) \<le> (1 - 1 / 2 ^ 53 :: real)"
  "(0 :: real) \<le> 1 / 2 ^ 53" "(1 :: real) / 2 ^ 53 < 1" "(0 :: real) \<le> 1 / 2 ^ 51"
  "(1 :: real) / 2 ^ 51 < 1" "(1 :: real) / 2 ^ 53 \<le> 1"
  "(0 :: real) < 1 / 2 ^ 53" "(1 :: real) / 2 ^ 54 \<le> 1 / 2 ^ 53"
  by simp_all

lemma fit_double:
  fixes w h :: nat and cw ch :: int
  assumes w: "0 < w" "w < 2 ^ 53" and h: "0 < h" "h < 2 ^ 53"
    and cw: "0 < cw" "cw < 2 ^ 53" and ch: "0 < ch" "ch < 2 ^ 53"
  shows "\<exists>a b. finalWidth binary64 (Num (of_int cw)) (Num (of_int ch)) (Num (real w)) (Num (real h))
             = Num a
           \<and> finalHeight binary64 (Num (of_int cw)) (Num (of_int ch)) (Num (real w)) (Num (real h))
             = Num b
           \<and> 0 \<le> a \<and> a \<le> of_int cw \<and> 0 < b \<and> b \<le> of_int ch
           \<and> (a = of_int cw \<or> b = of_int ch)
           \<and> \<bar>a / b - real w / real h\<bar> \<le> real w / real h * (1 / 2 ^ 51)"
proof -
  let ?cw = "real_of_int cw" and ?ch = "real_of_int ch"
  define rho where "rho = real w / real h"
  note k = rounding_constants
  have cw1: "1 \<le> ?cw" and ch1: "1 \<le> ?ch"
    using cw(1) ch(1) by simp_all
  have hn: "real h \<noteq> 0" and h1: "1 \<le> real h" and w1: "1 \<le> real w"
    using h(1) w(1) by simp_all
  have "real h < real (2 ^ 53)"
    using h(2) by (simp only: of_nat_less_iff)
  then have h53: "real h < 2 ^ 53"
    by simp
  have rho_lo: "1 / 2 ^ 53 \<le> rho"
  proof -
    have "1 / 2 ^ 53 \<le> 1 / real h"
      using h53 h1 by (intro divide_left_mono) simp_all
    also have "\<dots> \<le> real w / real h"
      using w1 h1 by (intro divide_right_mono) simp_all
    finally show ?thesis
      by (simp only: rho_def)
  qed
  with k(10) have rho_pos: "0 < rho"
    by linarith
  have rho_w: "rho \<le> real_of_int (int w)"
  proof -
    have "real w / real h \<le> real w / 1"
      using h1 w1 by (intro divide_left_mono) simp_all
    then show ?thesis
      by (simp add: rho_def)
  qed
  have wi: "int w < 2 ^ 53"
    using w(2) by (metis of_nat_less_iff of_nat_numeral of_nat_power)
  from binary64_le_int [OF rho_pos rho_w wi] obtain r where
    r: "binary64 rho = Num r" and rw: "r \<le> real w"
    by auto
  have "1 / 2 ^ 54 \<le> rho"
    using rho_lo k(11) by linarith
  from binary64_rel_error' [OF this r] have re: "\<bar>r - rho\<bar> \<le> rho * (1 / 2 ^ 53)" .
  note rb = abs_error_bounds [OF re]
  have "0 < rho * (1 - 1 / 2 ^ 53)"
    using rho_pos by simp
  with rb(1) have rp: "0 < r"
    by linarith
  then have rn: "r \<noteq> 0"
    by simp
  have "1 / 2 ^ 54 \<le> (1 / 2 ^ 53) * (1 - 1 / 2 ^ 53 :: real)"
    by simp
  also have "\<dots> \<le> rho * (1 - 1 / 2 ^ 53)"
    using rho_lo by (intro mult_right_mono) simp_all
  finally have r_lo: "1 / 2 ^ 54 \<le> r"
    using rb(1) by linarith
  have "real w < real (2 ^ 53)"
    using w(2) by (simp only: of_nat_less_iff)
  then have w53: "real w < 2 ^ 53"
    by simp
  have xp: "0 < ?cw / r"
    using cw1 rp by simp
  have ratio: "imgRatio binary64 (Num (real w)) (Num (real h)) = Num r"
    using hn r by (simp add: imgRatio_def rho_def)
  let ?d = "binary64 (?cw / r)"
  show ?thesis
  proof (cases "js_gt ?d (Num ?ch)")
    case True
    have "\<not> ?cw / r \<le> ?ch"
    proof
      assume "?cw / r \<le> ?ch"
      from binary64_le_int [OF xp this ch(2)] True show False
        by auto
    qed
    then have "?ch * r < ?cw"
      using rp by (simp add: field_simps)
    then have le: "?ch * r \<le> ?cw"
      by simp
    have pos: "0 < ?ch * r"
      using ch1 rp by simp
    from binary64_le_int [OF pos le cw(2)] obtain a where
      a: "binary64 (?ch * r) = Num a" "0 \<le> a" "a \<le> ?cw"
      by blast
    have "1 * r \<le> ?ch * r"
      using ch1 rp by (intro mult_right_mono) simp_all
    with r_lo have "1 / 2 ^ 54 \<le> ?ch * r"
      by (simp only: mult_1)
    from binary64_rel_error' [OF this a(1)]
    have "\<bar>a - ?ch * r\<bar> \<le> ?ch * r * (1 / 2 ^ 53)" .
    with re have "\<bar>a / ?ch - rho\<bar> \<le> rho * (1 / 2 ^ 51)"
      using rho_pos ch1 k by (intro ratio_mul [where r = r and d = "1 / 2 ^ 53"]) simp_all
    with True a rn ratio ch1 show ?thesis
      by (simp add: finalWidth_def finalHeight_def rho_def)
  next
    case False
    from binary64_pos [OF xp] False obtain b where b: "?d = Num b" "0 \<le> b"
      by auto
    with False have bch: "b \<le> ?ch"
      by simp
    have "1 / 2 ^ 53 \<le> 1 / r"
      using rw w53 rp by (intro divide_left_mono) simp_all
    also have "\<dots> \<le> ?cw / r"
      using cw1 rp by (intro divide_right_mono) simp_all
    finally have "1 / 2 ^ 54 \<le> ?cw / r"
      using k(11) by linarith
    from binary64_rel_error' [OF this b(1)]
    have "\<bar>b - ?cw / r\<bar> \<le> ?cw / r * (1 / 2 ^ 53)" .
    with re have "0 < b \<and> \<bar>?cw / b - rho\<bar> \<le> rho * (1 / 2 ^ 51)"
      using rho_pos cw1 k by (intro ratio_div [where r = r and d = "1 / 2 ^ 53"]) simp_all
    with False b bch rn ratio cw1 show ?thesis
      by (simp add: finalWidth_def finalHeight_def rho_def)
  qed
qed

lemma near_maximal:
  fixes a b rho D u v cw ch :: real
  assumes rho: "0 < rho" and D: "0 \<le> D" "D \<le> 1" and b: "0 < b"
    and e: "\<bar>a / b - rho\<bar> \<le> rho * D" and t: "a = cw \<or> b = ch"
    and u: "0 < u" and v: "0 < v" and uv: "u / v = rho" and ucw: "u \<le> cw" and vch: "v \<le> ch"
  shows "u * (1 - D) \<le> a \<and> v * (1 - D) \<le> b"
proof -
  note eb = abs_error_bounds [OF e]
  have uv': "u = v * rho"
    using uv v by (simp add: field_simps)
  have lo: "b * (rho * (1 - D)) \<le> a"
    using eb(1) b by (simp add: field_simps)
  have hi: "a \<le> b * (rho * (1 + D))"
    using eb(2) b by (simp add: field_simps)
  have D1: "0 \<le> 1 - D"
    using D by simp
  have uD: "u * (1 - D) \<le> u"
    using u D by (simp add: algebra_simps)
  have vD: "v * (1 - D) \<le> v"
    using v D by (simp add: algebra_simps)
  from t show ?thesis
  proof
    assume a: "a = cw"
    have "v * rho \<le> b * (rho * (1 + D))"
      using hi ucw a uv' by linarith
    then have "v * rho \<le> (b * (1 + D)) * rho"
      by (simp add: mult_ac)
    then have "v \<le> b * (1 + D)"
      using rho by (simp only: mult_le_cancel_right_pos)
    then have "v * (1 - D) \<le> b * (1 + D) * (1 - D)"
      using D1 by (rule mult_right_mono)
    also have "\<dots> = b - b * (D * D)"
      by (simp add: algebra_simps)
    also have "\<dots> \<le> b"
      using b by simp
    finally show ?thesis
      using uD ucw a by simp
  next
    assume bch: "b = ch"
    have "0 \<le> rho * (1 - D)"
      using rho D1 by simp
    with vch bch have "v * (rho * (1 - D)) \<le> b * (rho * (1 - D))"
      by (intro mult_right_mono) simp_all
    with lo have "v * (rho * (1 - D)) \<le> a"
      by linarith
    then have "u * (1 - D) \<le> a"
      by (simp add: uv' mult_ac)
    then show ?thesis
      using vD vch bch by simp
  qed
qed

lemma binary64_nonneg_le_int:
  fixes x :: real and c :: int
  assumes x: "0 \<le> x" and xc: "x \<le> of_int c" and c: "c < 2 ^ 53"
  shows "\<exists>y. binary64 x = Num y \<and> 0 \<le> y \<and> y \<le> of_int c"
proof (cases "x = 0")
  case True
  with xc show ?thesis
    by (simp add: binary64_def)
next
  case False
  with x have "0 < x"
    by simp
  from binary64_le_int [OF this xc c] show ?thesis .
qed

lemma centre:
  fixes a ms :: real and c :: int
  assumes a: "0 \<le> a" "a \<le> of_int c" and c: "c < 2 ^ 53"
  shows "\<exists>t s. binary64 (of_int c - a) = Num t \<and> binary64 (t / 2) = Num s
    \<and> 0 \<le> s \<and> s \<le> of_int c
    \<and> js_add binary64 (Num ms) (js_div binary64 (js_sub binary64 (Num (of_int c)) (Num a)) (Num 2))
        = binary64 (ms + s)"
proof -
  have "0 \<le> of_int c - a" "of_int c - a \<le> of_int c"
    using a by simp_all
  from binary64_nonneg_le_int [OF this c] obtain t where
    t: "binary64 (of_int c - a) = Num t" "0 \<le> t" "t \<le> of_int c"
    by blast
  have "0 \<le> t / 2" "t / 2 \<le> of_int c"
    using t(2,3) by simp_all
  from binary64_nonneg_le_int [OF this c] obtain s where
    s: "binary64 (t / 2) = Num s" "0 \<le> s" "s \<le> of_int c"
    by blast
  show ?thesis
    using t s by simp
qed

lemma place_4_3:
  "place_x binary64 (Num 0) (Num 100) (Num 100) (Num 4) (Num 3) = Num 0"
  "place_y binary64 (Num 0) (Num 100) (Num 100) (Num 4) (Num 3) = Num (25 / 2)"
  by (simp_all add: place_x_def place_y_def fit_4_3 b64_0 b64_25 b64_25_2)

text \<open>
  Claim C3, amended. The fit of \<^verbatim>\<open>generatePdf\<close> is computed in IEEE 754 doubles. For an image
  of \<open>width\<close> by \<open>height\<close> pixels and a content box of \<open>cw\<close> by \<open>ch\<close> millimetres, all positive
  whole numbers below \<open>2^53\<close>, the fitted size is a pair of finite positive numbers that exceeds
  neither bound of the content box and equals one of them; its ratio is the ratio of the image
  up to the relative error \<open>2^-51\<close>; and every size of exactly the ratio of the image inside the
  box, shrunk by the factor \<open>1 - 2^-51\<close>, is at most the fitted size in both dimensions. The
  placement on each axis is the margin size plus half of the free space, each operation
  rounded, and the half of the free space is a finite number between 0 and the bound. A 4 by 3
  image in a 100 by 100 box is fitted as 100 by 75 at the offset (0, 12.5) from the top left
  corner of the box.
\<close>

theorem C3_fit_inside:
  fixes width height :: nat and cw ch :: int and ms :: real
  assumes w: "0 < width" "width < 2 ^ 53" and h: "0 < height" "height < 2 ^ 53"
    and cw: "0 < cw" "cw < 2 ^ 53" and ch: "0 < ch" "ch < 2 ^ 53"
  shows "\<exists>a b tx sx ty sy.
      finalWidth binary64 (Num (of_int cw)) (Num (of_int ch)) (Num (real width)) (Num (real height))
        = Num a
    \<and> finalHeight binary64 (Num (of_int cw)) (Num (of_int ch)) (Num (real width)) (Num (real height))
        = Num b
    \<and> 0 < a \<and> a \<le> of_int cw \<and> 0 < b \<and> b \<le> of_int ch
    \<and> (a = of_int cw \<or> b = of_int ch)
    \<and> \<bar>a / b - real width / real height\<bar> \<le> real width / real height * (1 / 2 ^ 51)
    \<and> (\<forall>u v. 0 < u \<and> 0 < v \<and> u / v = real width / real height
            \<and> u \<le> of_int cw \<and> v \<le> of_int ch
          \<longrightarrow> u * (1 - 1 / 2 ^ 51) \<le> a \<and> v * (1 - 1 / 2 ^ 51) \<le> b)
    \<and> binary64 (of_int cw - a) = Num tx \<and> binary64 (tx / 2) = Num sx
    \<and> 0 \<le> sx \<and> sx \<le> of_int cw
    \<and> place_x binary64 (Num ms) (Num (of_int cw)) (Num (of_int ch)) (Num (real width))
          (Num (real height)) = binary64 (ms + sx)
    \<and> binary64 (of_int ch - b) = Num ty \<and> binary64 (ty / 2) = Num sy
    \<and> 0 \<le> sy \<and> sy \<le> of_int ch
    \<and> place_y binary64 (Num ms) (Num (of_int cw)) (Num (of_int ch)) (Num (real width))
          (Num (real height)) = binary64 (ms + sy)
    \<and> finalWidth binary64 (Num 100) (Num 100) (Num 4) (Num 3) = Num 100
    \<and> finalHeight binary64 (Num 100) (Num 100) (Num 4) (Num 3) = Num 75
    \<and> place_x binary64 (Num 0) (Num 100) (Num 100) (Num 4) (Num 3) = Num 0
    \<and> place_y binary64 (Num 0) (Num 100) (Num 100) (Num 4) (Num 3) = Num (25 / 2)"
proof -
  let ?cw = "real_of_int cw" and ?ch = "real_of_int ch"
  let ?rho = "real width / real height"
  note k = rounding_constants
  from fit_double [OF w h cw ch] obtain a b where
    fw: "finalWidth binary64 (Num ?cw) (Num ?ch) (Num (real width)) (Num (real height)) = Num a"
    and fh: "finalHeight binary64 (Num ?cw) (Num ?ch) (Num (real width)) (Num (real height)) = Num b"
    and a: "0 \<le> a" "a \<le> ?cw" and b: "0 < b" "b \<le> ?ch"
    and t: "a = ?cw \<or> b = ?ch"
    and e: "\<bar>a / b - ?rho\<bar> \<le> ?rho * (1 / 2 ^ 51)"
    by blast
  have rho: "0 < ?rho"
    using w(1) h(1) by simp
  have mx: "u * (1 - 1 / 2 ^ 51) \<le> a \<and> v * (1 - 1 / 2 ^ 51) \<le> b"
    if "0 < u \<and> 0 < v \<and> u / v = ?rho \<and> u \<le> ?cw \<and> v \<le> ?ch" for u v :: real
  proof -
    from that have uv: "0 < u" "0 < v" "u / v = ?rho" "u \<le> ?cw" "v \<le> ?ch"
      by blast+
    have "1 / 2 ^ 51 \<le> (1 :: real)"
      by simp
    from near_maximal [OF rho k(7) this b(1) e t uv] show ?thesis .
  qed
  have ap: "0 < a"
  proof -
    have "0 < ?rho * (1 - 1 / 2 ^ 51)"
      using rho by simp
    with abs_error_bounds(1) [OF e] have "0 < a / b"
      by linarith
    with b(1) show ?thesis
      by (simp add: zero_less_divide_iff)
  qed
  from centre [OF a cw(2), of ms] obtain tx sx where
    x: "binary64 (?cw - a) = Num tx" "binary64 (tx / 2) = Num sx" "0 \<le> sx" "sx \<le> ?cw"
      "js_add binary64 (Num ms) (js_div binary64 (js_sub binary64 (Num ?cw) (Num a)) (Num 2))
        = binary64 (ms + sx)"
    by blast
  have b0: "0 \<le> b"
    using b(1) by simp
  from centre [OF b0 b(2) ch(2), of ms] obtain ty sy where
    y: "binary64 (?ch - b) = Num ty" "binary64 (ty / 2) = Num sy" "0 \<le> sy" "sy \<le> ?ch"
      "js_add binary64 (Num ms) (js_div binary64 (js_sub binary64 (Num ?ch) (Num b)) (Num 2))
        = binary64 (ms + sy)"
    by blast
  have px: "place_x binary64 (Num ms) (Num ?cw) (Num ?ch) (Num (real width)) (Num (real height))
      = binary64 (ms + sx)"
    unfolding place_x_def fw by (rule x(5))
  have py: "place_y binary64 (Num ms) (Num ?cw) (Num ?ch) (Num (real width)) (Num (real height))
      = binary64 (ms + sy)"
    unfolding place_y_def fh by (rule y(5))
  from mx have mx': "\<forall>u v. 0 < u \<and> 0 < v \<and> u / v = ?rho \<and> u \<le> ?cw \<and> v \<le> ?ch
      \<longrightarrow> u * (1 - 1 / 2 ^ 51) \<le> a \<and> v * (1 - 1 / 2 ^ 51) \<le> b"
    by blast
  show ?thesis
    apply (rule exI [of _ a], rule exI [of _ b], rule exI [of _ tx], rule exI [of _ sx],
        rule exI [of _ ty], rule exI [of _ sy])
    apply (intro conjI)
    apply (rule fw fh ap a(2) b t e mx' x(1-4) px y(1-4) py fit_4_3 place_4_3)+
    done
qed

theorem C3_witness:
  "\<exists>a b. finalWidth binary64 (Num 210) (Num 297) (Num 7) (Num 10) = Num a
     \<and> finalHeight binary64 (Num 210) (Num 297) (Num 7) (Num 10) = Num b
     \<and> 0 < a \<and> a \<le> 210 \<and> 0 < b \<and> b \<le> 297 \<and> (a = 210 \<or> b = 297)
     \<and> \<bar>a / b - 7 / 10\<bar> \<le> 7 / 10 * (1 / 2 ^ 51)
     \<and> 2079 / 10 * (1 - 1 / 2 ^ 51) \<le> a \<and> 297 * (1 - 1 / 2 ^ 51) \<le> b"
proof -
  from C3_fit_inside [of 7 10 210 297 0] obtain a b where
    f: "finalWidth binary64 (Num 210) (Num 297) (Num 7) (Num 10) = Num a"
      "finalHeight binary64 (Num 210) (Num 297) (Num 7) (Num 10) = Num b"
    and p: "0 < a" "a \<le> 210" "0 < b" "b \<le> 297" "a = 210 \<or> b = 297"
      "\<bar>a / b - 7 / 10\<bar> \<le> 7 / 10 * (1 / 2 ^ 51)"
    and m: "\<forall>u v. 0 < u \<and> 0 < v \<and> u / v = 7 / 10 \<and> u \<le> 210 \<and> v \<le> 297
      \<longrightarrow> u * (1 - 1 / 2 ^ 51) \<le> a \<and> v * (1 - 1 / 2 ^ 51) \<le> b"
    by auto
  have "(0::real) < 2079 / 10 \<and> (0::real) < 297 \<and> (2079 / 10) / 297 = (7 / 10 :: real)
      \<and> (2079 / 10 :: real) \<le> 210 \<and> (297 :: real) \<le> 297"
    by simp
  with m have "2079 / 10 * (1 - 1 / 2 ^ 51) \<le> a \<and> 297 * (1 - 1 / 2 ^ 51) \<le> b"
    by blast
  with f p show ?thesis
    by blast
qed

theorem C3_counterexample:
  "addImage_args binary64 \<lparr>margin = none, orientation = portrait\<rparr> 7 10
     = (Num (18471795346637 / 17592186044416), Num 0,
        Num (1828707739317043 / 8796093022208), Num 297)
   \<and> (1828707739317043 / 8796093022208) / 297 \<noteq> (7 / 10 :: real)
   \<and> (2079 / 10) / 297 = (7 / 10 :: real) \<and> (2079 / 10 :: real) \<le> 210
   \<and> (1828707739317043 / 8796093022208 :: real) < 2079 / 10"
  by (simp add: addImage_args_def marginSize_def contentWidth_def contentHeight_def
      pageWidth_def pageHeight_def PAGE_SIZE_a4_width_def PAGE_SIZE_a4_height_def
      fit_7_10 place_7_10)

subsection \<open>The registry: identifiers and removal\<close>

lemma find_id_None: "i \<notin> id' ` set fs \<Longrightarrow> find (\<lambda>f. id' f = i) fs = None"
  by (induction fs) auto

lemma filter_id_absent: "i \<notin> id' ` set fs \<Longrightarrow> filter (\<lambda>f. id' f \<noteq> i) fs = fs"
  by (induction fs) auto

lemma find_id_distinct:
  "distinct (map id' fs) \<Longrightarrow> f \<in> set fs \<Longrightarrow> find (\<lambda>g. id' g = id' f) fs = Some f"
  by (induction fs) force+

lemma filter_id_distinct:
  "distinct (map id' fs) \<Longrightarrow> f \<in> set fs \<Longrightarrow> filter (\<lambda>g. id' g \<noteq> id' f) fs = remove1 f fs"
proof (induction fs)
  case Nil
  then show ?case by simp
next
  case (Cons a fs)
  show ?case
  proof (cases "a = f")
    case True
    with Cons.prems have "id' f \<notin> id' ` set fs" by auto
    then show ?thesis using True by (simp add: filter_id_absent)
  next
    case False
    with Cons.prems have "f \<in> set fs" "id' a \<noteq> id' f" by auto
    then show ?thesis using Cons False by simp
  qed
qed

lemma find_filter_None: "find (\<lambda>f. id' f = i) (filter (\<lambda>f. id' f \<noteq> i) fs) = None"
  by (induction fs) auto

text \<open>
  The identifiers stay distinct: additions with fresh identifiers, removals, clearing and
  status updates that do not patch the identifier keep them so.
\<close>

lemma id_newItem: "map id' (map newItem newFiles) = map (\<lambda>x. fst (snd x)) newFiles"
  by (induction newFiles) (auto simp: newItem_def)

lemma id_updateStatus:
  "patch_id extra = None \<Longrightarrow> map id' (updateStatus i s extra prev) = map id' prev"
  by (simp add: updateStatus_def spread_def)

lemma distinct_ids_preserved:
  assumes "distinct (map id' (files st))"
  shows "distinct (map id' (files (handleRemoveFile i st)))"
    and "distinct (map id' (files (handleClearAll confirmed st)))"
    and "distinct (map (\<lambda>x. fst (snd x)) newFiles) \<Longrightarrow>
         set (map (\<lambda>x. fst (snd x)) newFiles) \<inter> set (map id' (files st)) = {} \<Longrightarrow>
         distinct (map id' (files (handleFilesAdded newFiles st)))"
    and "patch_id extra = None \<Longrightarrow> distinct (map id' (updateStatus j s extra (files st)))"
proof -
  show "distinct (map id' (files (handleRemoveFile i st)))"
    using assms by (simp add: handleRemoveFile_def distinct_map_filter)
  show "distinct (map id' (files (handleClearAll confirmed st)))"
    using assms by (simp add: handleClearAll_def)
  show "distinct (map id' (files (handleFilesAdded newFiles st)))"
    if "distinct (map (\<lambda>x. fst (snd x)) newFiles)"
      and "set (map (\<lambda>x. fst (snd x)) newFiles) \<inter> set (map id' (files st)) = {}"
  proof -
    have "map id' (files (handleFilesAdded newFiles st))
        = map id' (files st) @ map (\<lambda>x. fst (snd x)) newFiles"
      using id_newItem [of newFiles] by (simp add: handleFilesAdded_def)
    with assms that show ?thesis
      by (simp only: distinct_append) blast
  qed
  show "distinct (map id' (updateStatus j s extra (files st)))" if "patch_id extra = None"
    using assms that by (simp add: id_updateStatus)
qed

text \<open>
  Claim C8. In a collection whose items have distinct identifiers, removing the identifier
  of an item of the collection removes that item and no other (the others keep their order
  and their fields) and revokes one URL, the display reference of that item; removing an
  identifier that no item has leaves the collection and the released references as they
  were; removing twice is removing once.
\<close>

theorem C8_remove:
  assumes "distinct (map id' (files st))"
  shows "(\<forall>f \<in> set (files st). id' f = i \<longrightarrow>
            files (handleRemoveFile i st) = remove1 f (files st)
            \<and> set (files (handleRemoveFile i st)) = set (files st) - {f}
            \<and> length (files (handleRemoveFile i st)) + 1 = length (files st)
            \<and> revoked (handleRemoveFile i st) = revoked st @ [previewUrl f])
       \<and> (i \<notin> id' ` set (files st) \<longrightarrow>
            files (handleRemoveFile i st) = files st
            \<and> revoked (handleRemoveFile i st) = revoked st)
       \<and> handleRemoveFile i (handleRemoveFile i st) = handleRemoveFile i st"
proof (intro conjI ballI impI)
  fix f assume f: "f \<in> set (files st)" and i: "id' f = i"
  have d: "distinct (files st)" using assms by (rule distinct_map [THEN iffD1, THEN conjunct1])
  show fl: "files (handleRemoveFile i st) = remove1 f (files st)"
    using filter_id_distinct [OF assms f] i by (simp add: handleRemoveFile_def)
  show "set (files (handleRemoveFile i st)) = set (files st) - {f}"
    using fl d by simp
  show "length (files (handleRemoveFile i st)) + 1 = length (files st)"
    using fl f by (simp add: length_remove1) (metis length_pos_if_in_set Suc_pred)
  show "revoked (handleRemoveFile i st) = revoked st @ [previewUrl f]"
    using find_id_distinct [OF assms f] i by (simp add: handleRemoveFile_def)
next
  assume "i \<notin> id' ` set (files st)"
  then show "files (handleRemoveFile i st) = files st"
    and "revoked (handleRemoveFile i st) = revoked st"
    by (simp_all add: handleRemoveFile_def filter_id_absent find_id_None)
next
  show "handleRemoveFile i (handleRemoveFile i st) = handleRemoveFile i st"
    by (simp add: handleRemoveFile_def find_filter_None)
qed

theorem C8_witness:
  "distinct (map id' (files state0))
   \<and> files (handleRemoveFile ''a'' state0) = [itemB]
   \<and> revoked (handleRemoveFile ''a'' state0) = [''blob:a'']
   \<and> files (handleRemoveFile ''c'' state0) = [itemA, itemB]
   \<and> revoked (handleRemoveFile ''c'' state0) = []"
proof -
  have d: "distinct (map id' (files state0))"
    by (simp add: state0_def itemA_def itemB_def)
  have a: "itemA \<in> set (files state0)" "id' itemA = ''a''" "itemA \<noteq> itemB"
    by (simp_all add: state0_def itemA_def itemB_def)
  have c: "''c'' \<notin> id' ` set (files state0)"
    by (simp add: state0_def itemA_def itemB_def)
  from C8_remove [OF d, of "''a''"] a
  have "files (handleRemoveFile ''a'' state0) = remove1 itemA (files state0)"
    and "revoked (handleRemoveFile ''a'' state0) = revoked state0 @ [previewUrl itemA]"
    by blast+
  moreover from C8_remove [OF d, of "''c''"] c
  have "files (handleRemoveFile ''c'' state0) = files state0"
    and "revoked (handleRemoveFile ''c'' state0) = revoked state0"
    by blast+
  ultimately show ?thesis
    using d a by (simp add: state0_def) (simp add: itemA_def)
qed

subsection \<open>The frame of \<open>updateStatus\<close>\<close>

lemma spread_fields:
  "id' (spread f s extra) = (case patch_id extra of None \<Rightarrow> id' f | Some v \<Rightarrow> v)"
  "file' (spread f s extra) = (case patch_file extra of None \<Rightarrow> file' f | Some v \<Rightarrow> v)"
  "previewUrl (spread f s extra) = (case patch_previewUrl extra of None \<Rightarrow> previewUrl f | Some v \<Rightarrow> v)"
  "status (spread f s extra) = (case patch_status extra of None \<Rightarrow> s | Some v \<Rightarrow> v)"
  "convertedBlob (spread f s extra) = (case patch_convertedBlob extra of None \<Rightarrow> convertedBlob f | Some v \<Rightarrow> v)"
  "error (spread f s extra) = (case patch_error extra of None \<Rightarrow> error f | Some v \<Rightarrow> v)"
  by (simp_all add: spread_def)

text \<open>
  Claim C9. \<^verbatim>\<open>updateStatus(id, status, extra)\<close> keeps the length of the collection and every
  item with another identifier; on an item with the identifier, each of the fields
  \<^verbatim>\<open>id\<close>, \<^verbatim>\<open>file\<close>, \<^verbatim>\<open>previewUrl\<close>, \<^verbatim>\<open>convertedBlob\<close> and \<^verbatim>\<open>error\<close> that is not a key of
  \<^verbatim>\<open>extra\<close> keeps its value, and the status becomes the given status, or that of \<^verbatim>\<open>extra\<close> when
  \<^verbatim>\<open>extra\<close> has the key.
\<close>

theorem C9_updateStatus_frame:
  "length (updateStatus i s extra prev) = length prev
   \<and> (\<forall>k < length prev. id' (prev ! k) \<noteq> i \<longrightarrow> updateStatus i s extra prev ! k = prev ! k)
   \<and> (\<forall>k < length prev. id' (prev ! k) = i \<longrightarrow>
        (patch_id extra = None \<longrightarrow> id' (updateStatus i s extra prev ! k) = id' (prev ! k))
        \<and> (patch_file extra = None \<longrightarrow> file' (updateStatus i s extra prev ! k) = file' (prev ! k))
        \<and> (patch_previewUrl extra = None \<longrightarrow>
              previewUrl (updateStatus i s extra prev ! k) = previewUrl (prev ! k))
        \<and> (patch_convertedBlob extra = None \<longrightarrow>
              convertedBlob (updateStatus i s extra prev ! k) = convertedBlob (prev ! k))
        \<and> (patch_error extra = None \<longrightarrow> error (updateStatus i s extra prev ! k) = error (prev ! k))
        \<and> (patch_status extra = None \<longrightarrow> status (updateStatus i s extra prev ! k) = s)
        \<and> (\<forall>v. patch_status extra = Some v \<longrightarrow> status (updateStatus i s extra prev ! k) = v))"
  by (simp add: updateStatus_def spread_fields)

theorem C9_witness:
  "updateStatus ''a'' CONVERTING no_extra [itemA, itemB] ! 1 = itemB
   \<and> status (updateStatus ''a'' CONVERTING no_extra [itemA, itemB] ! 0) = CONVERTING
   \<and> error (updateStatus ''a'' CONVERTING no_extra [itemA, itemB] ! 0) = Some ''Conversion failed''
   \<and> id' (updateStatus ''a'' CONVERTING no_extra [itemA, itemB] ! 0) = ''a''"
  using C9_updateStatus_frame [of "''a''" CONVERTING no_extra "[itemA, itemB]"]
  by (simp add: itemA_def itemB_def no_extra_def All_less_Suc2)

subsection \<open>Archive entry names\<close>

lemma replace_ext_ext:
  "ext \<noteq> [] \<Longrightarrow> list_all (\<lambda>d. d \<noteq> CHR ''/'' \<and> d \<noteq> CHR ''.'') ext
    \<Longrightarrow> replace_ext (stem @ CHR ''.'' # ext) = stem"
proof (induction stem)
  case Nil
  then show ?case by simp
next
  case (Cons c stem)
  have "\<not> list_all (\<lambda>d. d \<noteq> CHR ''/'' \<and> d \<noteq> CHR ''.'') (stem @ CHR ''.'' # ext)"
    by (simp add: list_all_iff)
  with Cons show ?case by simp
qed

lemma replace_ext_no_dot: "CHR ''.'' \<notin> set nm \<Longrightarrow> replace_ext nm = nm"
  by (induction nm) auto

lemma fold_zip_file:
  "fold (\<lambda>f z. zip_file (fileName (fst f)) (snd f) z) fs z0
     = z0 ++ map_of (rev (map (\<lambda>f. (fileName (fst f), snd f)) fs))"
proof (induction fs arbitrary: z0)
  case Nil
  then show ?case by simp
next
  case (Cons f fs)
  show ?case
    by (simp add: Cons.IH) (simp add: zip_file_def fun_upd_def)
qed

lemma zipAndDownload_map_of:
  "zipAndDownload fs = map_of (rev (map (\<lambda>f. (fileName (fst f), snd f)) fs))"
  by (simp add: zipAndDownload_def fold_zip_file)

text \<open>
  Claim C4. The entry name of \<^verbatim>\<open>zipAndDownload\<close> replaces the extension: for a name that ends
  in a dot followed by a non-empty extension without \<^verbatim>\<open>.\<close> and \<^verbatim>\<open>/\<close>, it is the name up to that dot
  followed by \<^verbatim>\<open>.jpg\<close>, so \<^verbatim>\<open>photo.webp\<close> gives \<^verbatim>\<open>photo.jpg\<close>. The download in archive mode
  writes one entry for each item that is \<^verbatim>\<open>COMPLETED\<close> with a blob, in the order of the items,
  and does not happen when there is none. Entries are keyed by their exact name and not
  deduplicated: a name that is written again holds the blob written last, so \<^verbatim>\<open>a.webp\<close> and
  \<^verbatim>\<open>a.png\<close> leave the single entry \<^verbatim>\<open>a.jpg\<close> with the blob of the second.
\<close>

theorem C4_archive_names:
  "(\<forall>stem ext. ext \<noteq> [] \<and> list_all (\<lambda>d. d \<noteq> CHR ''/'' \<and> d \<noteq> CHR ''.'') ext
        \<longrightarrow> fileName (stem @ ''.'' @ ext) = stem @ ''.jpg'')
   \<and> fileName ''photo.webp'' = ''photo.jpg''
   \<and> (handleDownload_JPEG st = None \<longleftrightarrow> completedFiles (files st) = [])
   \<and> (\<forall>z. handleDownload_JPEG st = Some z \<longrightarrow>
         z = map_of (rev (map (\<lambda>f. (fileName (name (file' f)), the (convertedBlob f)))
                            (completedFiles (files st)))))
   \<and> zipAndDownload (fs @ [(nm, blob)]) (fileName nm) = Some blob
   \<and> (list_all (\<lambda>f. fileName (fst f) \<noteq> fileName nm) later \<longrightarrow>
         zipAndDownload (earlier @ [(nm, blob)] @ later) (fileName nm) = Some blob)
   \<and> zipAndDownload [(''a.webp'', b1), (''a.png'', b2)] = [''a.jpg'' \<mapsto> b2]"
proof -
  have 1: "\<forall>stem ext. ext \<noteq> [] \<and> list_all (\<lambda>d. d \<noteq> CHR ''/'' \<and> d \<noteq> CHR ''.'') ext
        \<longrightarrow> fileName (stem @ ''.'' @ ext) = stem @ ''.jpg''"
    by (simp add: fileName_def replace_ext_ext)
  have 2: "fileName ''photo.webp'' = ''photo.jpg''"
    by (simp add: fileName_def)
  have 3: "handleDownload_JPEG st = None \<longleftrightarrow> completedFiles (files st) = []"
    by (simp add: handleDownload_JPEG_def)
  have 4: "\<forall>z. handleDownload_JPEG st = Some z \<longrightarrow>
         z = map_of (rev (map (\<lambda>f. (fileName (name (file' f)), the (convertedBlob f)))
                            (completedFiles (files st))))"
    by (simp add: handleDownload_JPEG_def zipAndDownload_map_of rev_map comp_def)
  have 5: "zipAndDownload (fs @ [(nm, blob)]) (fileName nm) = Some blob"
    by (simp add: zipAndDownload_map_of)
  have 6: "list_all (\<lambda>f. fileName (fst f) \<noteq> fileName nm) later \<longrightarrow>
         zipAndDownload (earlier @ [(nm, blob)] @ later) (fileName nm) = Some blob"
  proof
    assume "list_all (\<lambda>f. fileName (fst f) \<noteq> fileName nm) later"
    then have "map_of (rev (map (\<lambda>f. (fileName (fst f), snd f)) later)) (fileName nm) = None"
      by (auto simp: map_of_eq_None_iff list_all_iff)
    then show "zipAndDownload (earlier @ [(nm, blob)] @ later) (fileName nm) = Some blob"
      by (simp add: zipAndDownload_map_of map_of_append map_add_def)
  qed
  have 7: "zipAndDownload [(''a.webp'', b1), (''a.png'', b2)] = [''a.jpg'' \<mapsto> b2]"
    by (simp add: zipAndDownload_def zip_file_def fileName_def)
  from 1 2 3 4 5 6 7 show ?thesis
    by blast
qed

theorem C4_witness:
  "fileName (''archive.tar'' @ ''.'' @ ''gz'') = ''archive.tar'' @ ''.jpg''
   \<and> handleDownload_JPEG state1 = Some [''a.jpg'' \<mapsto> ''second'']
   \<and> zipAndDownload ([] @ [(''a.webp'', ''first'')] @ [(''b.webp'', ''other'')]) (fileName ''a.webp'')
       = Some ''first''"
proof -
  note t = C4_archive_names [of state1 "[]" "''a.webp''" "''first''" "[(''b.webp'', ''other'')]" "[]" "[]" "[]"]
  have z: "handleDownload_JPEG state1 \<noteq> None"
    by (simp add: handleDownload_JPEG_def completedFiles_def state1_def itemDone_def)
  then obtain z where zz: "handleDownload_JPEG state1 = Some z"
    by blast
  with t have "z = map_of (rev (map (\<lambda>f. (fileName (name (file' f)), the (convertedBlob f)))
                            (completedFiles (files state1))))"
    by blast
  then have "z = [''a.jpg'' \<mapsto> ''second'']"
    by (simp add: completedFiles_def state1_def itemDone_def fileName_def fun_eq_iff)
  moreover have "fileName (''archive.tar'' @ ''.'' @ ''gz'') = ''archive.tar'' @ ''.jpg''"
    using t [THEN conjunct1, rule_format, of "''gz''" "''archive.tar''"] by simp
  moreover have "list_all (\<lambda>f. fileName (fst f) \<noteq> fileName ''a.webp'') [(''b.webp'', ''other'')]"
    by (simp add: fileName_def)
  with t have "zipAndDownload ([] @ [(''a.webp'', ''first'')] @ [(''b.webp'', ''other'')])
      (fileName ''a.webp'') = Some ''first''"
    by blast
  ultimately show ?thesis using zz by simp
qed

subsection \<open>Document runs\<close>

lemma pdf_page_state:
  "pdf_page h options cb f i (s, tr) = ((s', tr'), e) \<Longrightarrow>
     s' = s \<or> cb i s = Inr s'"
  by (auto simp: pdf_page_def Let_def split: sum.splits if_splits)

lemma pdf_page_None:
  "pdf_page h options cb f i (s, tr) = ((s', tr'), None) \<Longrightarrow> cb i s = Inr s'"
  by (auto simp: pdf_page_def Let_def split: sum.splits if_splits)

declare pdf_loop.simps [simp del]

lemma pdf_loop_state_inv:
  assumes step: "\<And>j s s1. Q s \<Longrightarrow> cb j s = Inr s1 \<Longrightarrow> Q s1"
    and "Q s"
  shows "Q (fst (fst (pdf_loop h options cb fs i (s, tr))))"
  using \<open>Q s\<close>
proof (induction "length fs - i" arbitrary: i s tr)
  case 0
  then show ?case
    by (simp add: pdf_loop.simps [of h options cb fs i])
next
  case (Suc m)
  then have i: "i < length fs" and m: "m = length fs - Suc i"
    by simp_all
  obtain s1 tr1 e where p: "pdf_page h options cb (fs ! i) i (s, tr) = ((s1, tr1), e)"
    by (metis prod.exhaust)
  from pdf_page_state [OF p] step Suc.prems have q: "Q s1"
    by blast
  show ?case
  proof (cases e)
    case None
    with p i Suc.hyps(1) [OF m q, of tr1] show ?thesis
      by (simp add: pdf_loop.simps [of h options cb fs i])
  next
    case (Some err)
    with p i q show ?thesis
      by (simp add: pdf_loop.simps [of h options cb fs i])
  qed
qed

lemma pdf_loop_None_inv:
  assumes step: "\<And>j s s1. j < length fs \<Longrightarrow> Q j s \<Longrightarrow> cb j s = Inr s1 \<Longrightarrow> Q (Suc j) s1"
    and "Q i s" and "i \<le> length fs"
    and "pdf_loop h options cb fs i (s, tr) = ((s', tr'), None)"
  shows "Q (length fs) s'"
  using assms(2-)
proof (induction "length fs - i" arbitrary: i s tr)
  case 0
  then show ?case
    by (simp add: pdf_loop.simps [of h options cb fs i])
next
  case (Suc m)
  then have i: "i < length fs" and m: "m = length fs - Suc i"
    by simp_all
  obtain s1 tr1 e where p: "pdf_page h options cb (fs ! i) i (s, tr) = ((s1, tr1), e)"
    by (metis prod.exhaust)
  show ?case
  proof (cases e)
    case None
    with p have "cb i s = Inr s1"
      by (simp add: pdf_page_None)
    with step i Suc.prems(1) have q: "Q (Suc i) s1"
      by blast
    from Suc.prems(3) p None i
    have "pdf_loop h options cb fs (Suc i) (s1, tr1) = ((s', tr'), None)"
      by (simp add: pdf_loop.simps [of h options cb fs i])
    with Suc.hyps(1) [OF m q] i show ?thesis
      by simp
  next
    case (Some err)
    with p i Suc.prems(3) show ?thesis
      by (simp add: pdf_loop.simps [of h options cb fs i])
  qed
qed

lemma generatePdf_Inr:
  assumes "generatePdf h fs options cb s = ((s', tr'), Inr blob)"
  shows "\<exists>tr. pdf_loop h options cb fs 0 (s, [NewJsPDF (orientation options)]) = ((s', tr), None)
           \<and> tr' = tr @ [Output] \<and> blob = jsPDF_output h tr"
  using assms
  by (auto simp: generatePdf_def jsPDF_call_def split: if_splits prod.splits option.splits)

lemma generatePdf_state_inv:
  assumes step: "\<And>j s s1. Q s \<Longrightarrow> cb j s = Inr s1 \<Longrightarrow> Q s1"
    and "Q s"
  shows "Q (fst (fst (generatePdf h fs options cb s)))"
proof -
  obtain s' tr e where p:
    "pdf_loop h options cb fs 0 (s, [NewJsPDF (orientation options)]) = ((s', tr), e)"
    by (metis prod.exhaust)
  have "Q (fst (fst (pdf_loop h options cb fs 0 (s, [NewJsPDF (orientation options)]))))"
    using step \<open>Q s\<close> by (rule pdf_loop_state_inv)
  with p have "Q s'"
    by simp
  with \<open>Q s\<close> p show ?thesis
    by (cases e) (simp_all add: generatePdf_def jsPDF_call_def)
qed

lemma spread_no_extra: "spread f s no_extra = f\<lparr>status := s\<rparr>"
  by (simp add: spread_def no_extra_def)

lemma unstatus_updateStatus:
  "map (status_update (\<lambda>_. IDLE)) (updateStatus i s no_extra prev)
     = map (status_update (\<lambda>_. IDLE)) prev"
  by (simp add: updateStatus_def spread_no_extra)

lemma unstatus_resetConverting:
  "map (status_update (\<lambda>_. IDLE)) (resetConverting prev) = map (status_update (\<lambda>_. IDLE)) prev"
  by (simp add: resetConverting_def)

lemma markAllFailed_unstatus:
  "markAllFailed (map (status_update (\<lambda>_. IDLE)) prev) = markAllFailed prev"
  by (simp add: markAllFailed_def)

lemma markAllFailed_cong:
  assumes "map (status_update (\<lambda>_. IDLE)) s = map (status_update (\<lambda>_. IDLE)) t"
  shows "markAllFailed s = markAllFailed t"
proof -
  have "markAllFailed s = markAllFailed (map (status_update (\<lambda>_. IDLE)) s)"
    by (simp only: markAllFailed_unstatus)
  also have "\<dots> = markAllFailed (map (status_update (\<lambda>_. IDLE)) t)"
    by (simp only: assms)
  also have "\<dots> = markAllFailed t"
    by (simp only: markAllFailed_unstatus)
  finally show ?thesis .
qed

lemma progress_callback_unstatus:
  assumes "map (status_update (\<lambda>_. IDLE)) s = map (status_update (\<lambda>_. IDLE)) fs0"
    and "progress_callback fs0 j s = Inr s1"
  shows "map (status_update (\<lambda>_. IDLE)) s1 = map (status_update (\<lambda>_. IDLE)) fs0"
  using assms by (auto simp: progress_callback_def unstatus_updateStatus split: if_splits)

lemma unstatus_nth:
  assumes "map (status_update (\<lambda>_. IDLE)) s = map (status_update (\<lambda>_. IDLE)) t" and "k < length t"
  shows "length s = length t" and "id' (s ! k) = id' (t ! k)"
    and "s ! k = (t ! k)\<lparr>status := status (s ! k)\<rparr>"
proof -
  from assms(1) show l: "length s = length t"
    by (rule map_eq_imp_length_eq)
  from assms(1) have "map (status_update (\<lambda>_. IDLE)) s ! k = map (status_update (\<lambda>_. IDLE)) t ! k"
    by (simp only:)
  with assms(2) l have e: "status_update (\<lambda>_. IDLE) (s ! k) = status_update (\<lambda>_. IDLE) (t ! k)"
    by simp
  then have "id' (status_update (\<lambda>_. IDLE) (s ! k)) = id' (status_update (\<lambda>_. IDLE) (t ! k))"
    by simp
  then show "id' (s ! k) = id' (t ! k)"
    by simp
  have "(status_update (\<lambda>_. IDLE) (s ! k))\<lparr>status := status (s ! k)\<rparr> = s ! k"
    by simp
  with e show "s ! k = (t ! k)\<lparr>status := status (s ! k)\<rparr>"
    by simp
qed

lemma progress_callback_completed:
  assumes u: "map (status_update (\<lambda>_. IDLE)) s = map (status_update (\<lambda>_. IDLE)) fs0"
    and c: "\<forall>k<j. status (s ! k) = COMPLETED"
    and j: "j < length fs0"
    and r: "progress_callback fs0 j s = Inr s1"
  shows "\<forall>k<Suc j. status (s1 ! k) = COMPLETED"
proof (intro allI impI)
  fix k assume k: "k < Suc j"
  from r j have s1: "s1 = updateStatus (id' (fs0 ! j)) COMPLETED no_extra s"
    by (simp add: progress_callback_def)
  from unstatus_nth [OF u j] have l: "length s = length fs0" and ij: "id' (s ! j) = id' (fs0 ! j)"
    by simp_all
  from k j l have kl: "k < length s"
    by simp
  show "status (s1 ! k) = COMPLETED"
  proof (cases "k = j")
    case True
    with kl ij show ?thesis
      by (simp add: s1 updateStatus_def spread_no_extra)
  next
    case False
    with k c have "status (s ! k) = COMPLETED"
      by simp
    with kl show ?thesis
      by (simp add: s1 updateStatus_def spread_no_extra)
  qed
qed

lemma all_completed_eq:
  assumes u: "map (status_update (\<lambda>_. IDLE)) s = map (status_update (\<lambda>_. IDLE)) fs0"
    and c: "\<forall>k<length fs0. status (s ! k) = COMPLETED"
  shows "s = map (\<lambda>f. f\<lparr>status := COMPLETED\<rparr>) fs0"
proof (rule nth_equalityI)
  show "length s = length (map (\<lambda>f. f\<lparr>status := COMPLETED\<rparr>) fs0)"
    using map_eq_imp_length_eq [OF u] by simp
next
  fix k assume "k < length s"
  with map_eq_imp_length_eq [OF u] have k: "k < length fs0"
    by simp
  from c k have st: "status (s ! k) = COMPLETED"
    by simp
  have "s ! k = (fs0 ! k)\<lparr>status := status (s ! k)\<rparr>"
    by (rule unstatus_nth(3) [OF u k])
  also have "\<dots> = (fs0 ! k)\<lparr>status := COMPLETED\<rparr>"
    by (simp only: st)
  finally show "s ! k = map (\<lambda>f. f\<lparr>status := COMPLETED\<rparr>) fs0 ! k"
    using k by simp
qed

lemma only_addImage_throws:
  assumes "\<forall>tr c. jsPDF_throws h tr c \<longrightarrow> (\<exists>d a. c = AddImage d a)"
  shows "\<not> jsPDF_throws h tr AddPage" and "\<not> jsPDF_throws h tr (DocText t x y)"
    and "\<not> jsPDF_throws h tr Output" and "\<not> jsPDF_throws h tr (NewJsPDF ori)"
  using assms by auto

lemma pdf_page_only_addImage:
  assumes oa: "\<forall>tr c. jsPDF_throws h tr c \<longrightarrow> (\<exists>d a. c = AddImage d a)"
  shows "pdf_page h options cb (fs ! i) i (s, tr) =
     (case cb i s of
        Inl err \<Rightarrow> ((s, tr), Some err)
      | Inr s1 \<Rightarrow> ((s1, tr @ page_calls h options fs i tr), None))"
  by (simp add: pdf_page_def jsPDF_call_def try_block_def page_calls_def page_start_def
      page_content_def error_marker_def only_addImage_throws [OF oa]
      split: sum.splits prod.splits)

lemma pdf_loop_only_addImage:
  assumes oa: "\<forall>tr c. jsPDF_throws h tr c \<longrightarrow> (\<exists>d a. c = AddImage d a)"
    and cb: "\<And>j s. j < length fs \<Longrightarrow> cb j s = Inr (g j s)"
  shows "pdf_loop h options cb fs i (s, tr) =
     ((fold g [i..<length fs] s, pages_calls h options fs [i..<length fs] tr), None)"
proof (induction "length fs - i" arbitrary: i s tr)
  case 0
  then show ?case
    by (simp add: pdf_loop.simps [of h options cb fs i] pages_calls_def)
next
  case (Suc m)
  then have i: "i < length fs" and m: "m = length fs - Suc i"
    by simp_all
  show ?case
    using i Suc.hyps(1) [OF m]
    by (simp add: pdf_loop.simps [of h options cb fs i] pdf_page_only_addImage [OF oa] cb
        upt_conv_Cons pages_calls_def)
qed

lemma generatePdf_only_addImage:
  assumes oa: "\<forall>tr c. jsPDF_throws h tr c \<longrightarrow> (\<exists>d a. c = AddImage d a)"
    and cb: "\<And>j s. j < length fs \<Longrightarrow> cb j s = Inr (g j s)"
  shows "generatePdf h fs options cb s =
     ((fold g [0..<length fs] s,
       pages_calls h options fs [0..<length fs] [NewJsPDF (orientation options)] @ [Output]),
      Inr (jsPDF_output h
             (pages_calls h options fs [0..<length fs] [NewJsPDF (orientation options)])))"
  by (simp add: generatePdf_def jsPDF_call_def pdf_loop_only_addImage [OF oa cb]
      only_addImage_throws [OF oa])

lemma pdf_page_history:
  assumes "hist \<noteq> []"
    and "pdf_page h options (with_history cb) f i (hist, tr) = ((hist', tr'), e)"
  shows "pdf_page h options cb f i (last hist, tr) = ((last hist', tr'), e) \<and> hist' \<noteq> []"
  using assms
  by (auto simp: pdf_page_def with_history_def Let_def split: sum.splits if_splits)

lemma pdf_loop_history:
  assumes "hist \<noteq> []"
    and "pdf_loop h options (with_history cb) fs i (hist, tr) = ((hist', tr'), e)"
  shows "pdf_loop h options cb fs i (last hist, tr) = ((last hist', tr'), e) \<and> hist' \<noteq> []"
  using assms
proof (induction "length fs - i" arbitrary: i hist tr)
  case 0
  then show ?case
    by (simp add: pdf_loop.simps [of h options _ fs i])
next
  case (Suc m)
  then have i: "i < length fs" and m: "m = length fs - Suc i"
    by simp_all
  obtain h1 tr1 e1 where p:
    "pdf_page h options (with_history cb) (fs ! i) i (hist, tr) = ((h1, tr1), e1)"
    by (metis prod.exhaust)
  from pdf_page_history [OF Suc.prems(1) p]
  have q: "pdf_page h options cb (fs ! i) i (last hist, tr) = ((last h1, tr1), e1)"
    and ne: "h1 \<noteq> []"
    by simp_all
  show ?case
  proof (cases e1)
    case None
    with Suc.prems(2) p i
    have "pdf_loop h options (with_history cb) fs (Suc i) (h1, tr1) = ((hist', tr'), e)"
      by (simp add: pdf_loop.simps [of h options _ fs i])
    from Suc.hyps(1) [OF m ne this] q None i show ?thesis
      by (simp add: pdf_loop.simps [of h options cb fs i])
  next
    case (Some err)
    with Suc.prems(2) p q i ne show ?thesis
      by (auto simp: pdf_loop.simps [of h options _ fs i])
  qed
qed

lemma generatePdf_history:
  assumes "hist \<noteq> []"
    and "generatePdf h fs options (with_history cb) hist = ((hist', tr'), r)"
  shows "generatePdf h fs options cb (last hist) = ((last hist', tr'), r) \<and> hist' \<noteq> []"
proof (cases "jsPDF_throws h [] (NewJsPDF (orientation options))")
  case True
  with assms show ?thesis
    by (auto simp: generatePdf_def jsPDF_call_def)
next
  case False
  obtain h1 tr1 e1 where p: "pdf_loop h options (with_history cb) fs 0
      (hist, [NewJsPDF (orientation options)]) = ((h1, tr1), e1)"
    by (metis prod.exhaust)
  from pdf_loop_history [OF assms(1) p]
  have q: "pdf_loop h options cb fs 0 (last hist, [NewJsPDF (orientation options)])
      = ((last h1, tr1), e1)" and ne: "h1 \<noteq> []"
    by simp_all
  from assms(2) False p q ne show ?thesis
    by (cases e1) (auto simp: generatePdf_def jsPDF_call_def split: if_splits)
qed

text \<open>The state after the run in terms of the run of the callback on the collection alone.\<close>

lemma startPdfConversion_generatePdf:
  "startPdfConversion h st =
     (case generatePdf h (map file' (files st)) (pdfOptions st) (progress_callback (files st))
             (resetConverting (files st)) of
        ((prev, tr), Inr blob) \<Rightarrow> st\<lparr>files := prev, pdfBlob := Some blob\<rparr>
      | ((prev, tr), Inl err) \<Rightarrow> st\<lparr>files := markAllFailed prev\<rparr>)"
proof -
  obtain hist tr r where p: "pdf_run h st = ((hist, tr), r)"
    by (metis prod.exhaust)
  then have "generatePdf h (map file' (files st)) (pdfOptions st)
      (with_history (progress_callback (files st))) [resetConverting (files st)] = ((hist, tr), r)"
    by (simp add: pdf_run_def)
  from generatePdf_history [OF _ this]
  have "generatePdf h (map file' (files st)) (pdfOptions st) (progress_callback (files st))
      (resetConverting (files st)) = ((last hist, tr), r)"
    by simp
  with p show ?thesis
    by (cases r) (simp_all add: startPdfConversion_def)
qed

lemma progress_callback_Inr:
  "j < length (map file' fs0) \<Longrightarrow>
     progress_callback fs0 j s = Inr (updateStatus (id' (fs0 ! j)) COMPLETED no_extra s)"
  by (simp add: progress_callback_def)

lemma generatePdf_Output_throws:
  assumes "\<forall>tr. jsPDF_throws h tr Output"
  shows "isl (snd (generatePdf h fs options cb s))"
  using assms
  by (simp add: generatePdf_def jsPDF_call_def split: prod.splits option.splits)

lemma startPdfConversion_Inl:
  assumes "isl (snd (generatePdf h (map file' (files st)) (pdfOptions st)
                  (progress_callback (files st)) (resetConverting (files st))))"
  shows "files (startPdfConversion h st) = markAllFailed (files st)"
    and "pdfBlob (startPdfConversion h st) = pdfBlob st"
proof -
  let ?run = "generatePdf h (map file' (files st)) (pdfOptions st)
                  (progress_callback (files st)) (resetConverting (files st))"
  obtain prev tr r where run: "?run = ((prev, tr), r)"
    by (metis prod.exhaust)
  with assms obtain err where r: "r = Inl err"
    by (cases r) simp_all
  have "map (status_update (\<lambda>_. IDLE)) (fst (fst ?run)) = map (status_update (\<lambda>_. IDLE)) (files st)"
  proof (rule generatePdf_state_inv [where Q = "\<lambda>s. map (status_update (\<lambda>_. IDLE)) s
            = map (status_update (\<lambda>_. IDLE)) (files st)"])
    show "map (status_update (\<lambda>_. IDLE)) (resetConverting (files st))
        = map (status_update (\<lambda>_. IDLE)) (files st)"
      by (rule unstatus_resetConverting)
  next
    fix j s s1
    assume "map (status_update (\<lambda>_. IDLE)) s = map (status_update (\<lambda>_. IDLE)) (files st)"
      and "progress_callback (files st) j s = Inr s1"
    then show "map (status_update (\<lambda>_. IDLE)) s1 = map (status_update (\<lambda>_. IDLE)) (files st)"
      by (rule progress_callback_unstatus)
  qed
  with run have "map (status_update (\<lambda>_. IDLE)) prev = map (status_update (\<lambda>_. IDLE)) (files st)"
    by simp
  then have "markAllFailed prev = markAllFailed (files st)"
    by (rule markAllFailed_cong)
  with run r show "files (startPdfConversion h st) = markAllFailed (files st)"
    by (simp add: startPdfConversion_generatePdf)
  from run r show "pdfBlob (startPdfConversion h st) = pdfBlob st"
    by (simp add: startPdfConversion_generatePdf)
qed

text \<open>
  Claim C6. A document run whose document cannot be output (\<^verbatim>\<open>doc.output\<close> throws) is
  rejected; and after every rejected run each item of the collection (the same items, in the
  same order) has the status \<^verbatim>\<open>ERROR\<close> and the error \<^verbatim>\<open>PDF Generation failed\<close>, and the
  run has stored no document: \<^verbatim>\<open>pdfBlob\<close> is what it was before the run, so after a run from a
  state without a document there is none to download.
\<close>

theorem C6_catastrophic_failure:
  fixes h :: Host and st :: AppState
  defines "run \<equiv> generatePdf h (map file' (files st)) (pdfOptions st)
                    (progress_callback (files st)) (resetConverting (files st))"
  shows "((\<forall>tr. jsPDF_throws h tr Output) \<longrightarrow> isl (snd run))
    \<and> (isl (snd run) \<longrightarrow>
          files (startPdfConversion h st)
            = map (\<lambda>f. f\<lparr>status := ERROR, error := Some ''PDF Generation failed''\<rparr>) (files st)
          \<and> (\<forall>f \<in> set (files (startPdfConversion h st)).
                status f = ERROR \<and> error f = Some ''PDF Generation failed'')
          \<and> length (files (startPdfConversion h st)) = length (files st)
          \<and> pdfBlob (startPdfConversion h st) = pdfBlob st
          \<and> (pdfBlob st = None \<longrightarrow> pdfBlob (startPdfConversion h st) = None))"
proof (intro conjI impI)
  assume "\<forall>tr. jsPDF_throws h tr Output"
  then show "isl (snd run)"
    unfolding run_def by (rule generatePdf_Output_throws)
next
  assume "isl (snd run)"
  then have i: "isl (snd (generatePdf h (map file' (files st)) (pdfOptions st)
                  (progress_callback (files st)) (resetConverting (files st))))"
    by (simp add: run_def)
  note f = startPdfConversion_Inl [OF i]
  from f(1) show "files (startPdfConversion h st)
            = map (\<lambda>f. f\<lparr>status := ERROR, error := Some ''PDF Generation failed''\<rparr>) (files st)"
    by (simp add: markAllFailed_def)
  from f(1) show "\<forall>f \<in> set (files (startPdfConversion h st)).
                status f = ERROR \<and> error f = Some ''PDF Generation failed''"
    by (simp add: markAllFailed_def)
  from f(1) show "length (files (startPdfConversion h st)) = length (files st)"
    by (simp add: markAllFailed_def)
  from f(2) show "pdfBlob (startPdfConversion h st) = pdfBlob st" .
  assume "pdfBlob st = None"
  with f(2) show "pdfBlob (startPdfConversion h st) = None"
    by simp
qed

theorem C6_witness:
  "files (startPdfConversion host_no_output state2)
     = [(itemIdle ''1'' ''a.webp'')\<lparr>status := ERROR, error := Some ''PDF Generation failed''\<rparr>,
        (itemIdle ''2'' ''broken.webp'')\<lparr>status := ERROR, error := Some ''PDF Generation failed''\<rparr>]
   \<and> pdfBlob (startPdfConversion host_no_output state2) = None"
proof -
  have t: "\<forall>tr. jsPDF_throws host_no_output tr Output"
    by (simp add: host_no_output_def)
  note c = C6_catastrophic_failure [of host_no_output state2]
  from c t have i: "isl (snd (generatePdf host_no_output (map file' (files state2))
      (pdfOptions state2) (progress_callback (files state2)) (resetConverting (files state2))))"
    by blast
  have n: "pdfBlob state2 = None"
    by (simp add: state2_def)
  from c i n have "files (startPdfConversion host_no_output state2)
            = map (\<lambda>f. f\<lparr>status := ERROR, error := Some ''PDF Generation failed''\<rparr>) (files state2)"
    and "pdfBlob (startPdfConversion host_no_output state2) = None"
    by blast+
  then show ?thesis
    by (simp add: state2_def)
qed

lemma pdf_page_order:
  assumes "pdf_page h options cb f i (s, tr) = ((s', tr'), e)"
    and "GetImageData f \<in> set (drop (length tr) tr')"
  shows "cb i s = Inr s' \<and> take (Suc (length tr)) tr' = tr @ [Progress i]"
  using assms
  by (auto simp: pdf_page_def Let_def jsPDF_call_def try_block_def
      split: sum.splits if_splits prod.splits)

lemma startPdfConversion_Inr:
  assumes "snd (generatePdf h (map file' (files st)) (pdfOptions st)
                  (progress_callback (files st)) (resetConverting (files st))) = Inr blob"
  shows "files (startPdfConversion h st) = map (\<lambda>f. f\<lparr>status := COMPLETED\<rparr>) (files st)"
    and "pdfBlob (startPdfConversion h st) = Some blob"
proof -
  let ?U = "map (status_update (\<lambda>_. IDLE))"
  let ?run = "generatePdf h (map file' (files st)) (pdfOptions st)
                  (progress_callback (files st)) (resetConverting (files st))"
  let ?Q = "\<lambda>i s. ?U s = ?U (files st) \<and> (\<forall>k<i. status (s ! k) = COMPLETED)"
  obtain prev tr' where run: "?run = ((prev, tr'), Inr blob)"
    using assms by (metis prod.exhaust snd_conv)
  from generatePdf_Inr [OF run] obtain tr where
    loop: "pdf_loop h (pdfOptions st) (progress_callback (files st)) (map file' (files st)) 0
             (resetConverting (files st), [NewJsPDF (orientation (pdfOptions st))])
           = ((prev, tr), None)"
    by blast
  have "?Q (length (map file' (files st))) prev"
  proof (rule pdf_loop_None_inv [where Q = ?Q, OF _ _ _ loop])
    show "?Q 0 (resetConverting (files st))"
      by (simp add: unstatus_resetConverting)
    show "0 \<le> length (map file' (files st))"
      by simp
    fix j s s1
    assume "j < length (map file' (files st))" and "?Q j s"
      and "progress_callback (files st) j s = Inr s1"
    then show "?Q (Suc j) s1"
      using progress_callback_unstatus [of s "files st" j s1]
        progress_callback_completed [of s "files st" j s1]
      by simp
  qed
  then have "prev = map (\<lambda>f. f\<lparr>status := COMPLETED\<rparr>) (files st)"
    using all_completed_eq [of prev "files st"] by simp
  with run show "files (startPdfConversion h st) = map (\<lambda>f. f\<lparr>status := COMPLETED\<rparr>) (files st)"
    by (simp add: startPdfConversion_generatePdf)
  from run show "pdfBlob (startPdfConversion h st) = Some blob"
    by (simp add: startPdfConversion_generatePdf)
qed

text \<open>
  Claim C10. After a document run that returns a blob, every item of the collection has the
  status \<^verbatim>\<open>COMPLETED\<close> (and its other fields as before), also an item whose rasterisation
  failed; the blob is stored. Within a page, a rasterisation is reached only after the
  progress callback was called and has marked the item, and nothing later in the page changes
  the collection.
\<close>

theorem C10_document_status:
  assumes "snd (generatePdf h (map file' (files st)) (pdfOptions st)
                  (progress_callback (files st)) (resetConverting (files st))) = Inr blob"
  shows "files (startPdfConversion h st) = map (\<lambda>f. f\<lparr>status := COMPLETED\<rparr>) (files st)
    \<and> (\<forall>f \<in> set (files (startPdfConversion h st)). status f = COMPLETED)
    \<and> (\<forall>i err. i < length (files st) \<and> getImageData h (file' (files st ! i)) = Inl err
          \<longrightarrow> status (files (startPdfConversion h st) ! i) = COMPLETED)
    \<and> pdfBlob (startPdfConversion h st) = Some blob
    \<and> (\<forall>f i s tr s' tr' e.
          pdf_page h (pdfOptions st) (progress_callback (files st)) f i (s, tr) = ((s', tr'), e)
            \<and> GetImageData f \<in> set (drop (length tr) tr')
          \<longrightarrow> progress_callback (files st) i s = Inr s'
              \<and> take (Suc (length tr)) tr' = tr @ [Progress i])"
proof -
  note f = startPdfConversion_Inr [OF assms]
  from f(1) have 2: "\<forall>f \<in> set (files (startPdfConversion h st)). status f = COMPLETED"
    by simp
  from f(1) have 3: "\<forall>i err. i < length (files st) \<and> getImageData h (file' (files st ! i)) = Inl err
          \<longrightarrow> status (files (startPdfConversion h st) ! i) = COMPLETED"
    by simp
  have 5: "\<forall>f i s tr s' tr' e.
          pdf_page h (pdfOptions st) (progress_callback (files st)) f i (s, tr) = ((s', tr'), e)
            \<and> GetImageData f \<in> set (drop (length tr) tr')
          \<longrightarrow> progress_callback (files st) i s = Inr s'
              \<and> take (Suc (length tr)) tr' = tr @ [Progress i]"
    by (intro allI impI, elim conjE, rule pdf_page_order)
  from f 2 3 5 show ?thesis
    by blast
qed

theorem C10_witness:
  "snd (generatePdf host_good (map file' (files state2)) (pdfOptions state2)
          (progress_callback (files state2)) (resetConverting (files state2))) = Inr ''pdf''
   \<and> getImageData host_good (file' (files state2 ! 1)) = Inl (LoadError ''Failed to load image'')
   \<and> files (startPdfConversion host_good state2)
       = [(itemIdle ''1'' ''a.webp'')\<lparr>status := COMPLETED\<rparr>,
          (itemIdle ''2'' ''broken.webp'')\<lparr>status := COMPLETED\<rparr>]
   \<and> pdfBlob (startPdfConversion host_good state2) = Some ''pdf''"
proof -
  have nt: "\<forall>tr c. jsPDF_throws host_good tr c \<longrightarrow> (\<exists>d a. c = AddImage d a)"
    by (simp add: host_good_def)
  have r: "snd (generatePdf host_good (map file' (files state2)) (pdfOptions state2)
          (progress_callback (files state2)) (resetConverting (files state2))) = Inr ''pdf''"
    by (simp only: generatePdf_only_addImage [OF nt progress_callback_Inr] snd_conv)
       (simp add: host_good_def)
  have g: "getImageData host_good (file' (files state2 ! 1)) = Inl (LoadError ''Failed to load image'')"
    by (simp add: host_good_def state2_def itemIdle_def)
  from C10_document_status [OF r]
  have "files (startPdfConversion host_good state2)
          = map (\<lambda>f. f\<lparr>status := COMPLETED\<rparr>) (files state2)"
    and "pdfBlob (startPdfConversion host_good state2) = Some ''pdf''"
    by blast+
  with r g show ?thesis
    by (simp add: state2_def)
qed

lemma with_history_progress:
  "j < length (map file' fs0) \<Longrightarrow>
     with_history (progress_callback fs0) j hist
       = Inr (hist @ [updateStatus (id' (fs0 ! j)) COMPLETED no_extra (last hist)])"
  by (simp add: with_history_def progress_callback_def)

lemma after_progress_Suc:
  "after_progress fs (Suc k) = updateStatus (id' (fs ! k)) COMPLETED no_extra (after_progress fs k)"
  by (simp add: after_progress_def)

lemma fold_history:
  "fold (\<lambda>j hist. hist @ [updateStatus (id' (fs ! j)) COMPLETED no_extra (last hist)]) [0..<n]
      [resetConverting fs]
     = map (after_progress fs) [0..<Suc n]"
proof (induction n)
  case 0
  show ?case
    by (simp add: after_progress_def)
next
  case (Suc n)
  let ?F = "\<lambda>j hist. hist @ [updateStatus (id' (fs ! j)) COMPLETED no_extra (last hist)]"
  let ?H = "map (after_progress fs) [0..<Suc n]"
  have l: "last ?H = after_progress fs n"
    by simp
  have "fold ?F [0..<Suc n] [resetConverting fs] = ?F n (fold ?F [0..<n] [resetConverting fs])"
    by simp
  also have "\<dots> = ?H @ [updateStatus (id' (fs ! n)) COMPLETED no_extra (last ?H)]"
    by (simp only: Suc)
  also have "\<dots> = ?H @ [after_progress fs (Suc n)]"
    by (simp only: l after_progress_Suc)
  also have "\<dots> = map (after_progress fs) [0..<Suc (Suc n)]"
    by simp
  finally show ?case .
qed

lemma pages_calls_snoc:
  "pages_calls h options fs (is @ [i]) tr
     = pages_calls h options fs is tr @ page_calls h options fs i (pages_calls h options fs is tr)"
  by (simp add: pages_calls_def)

lemma page_content_not_AddPage: "page_content h options f tr \<noteq> AddPage"
  by (simp add: page_content_def error_marker_def split: sum.splits prod.splits)

lemma page_calls_AddPage: "(AddPage \<in> set (page_calls h options fs i tr)) = (0 < i)"
  using page_content_not_AddPage [of h options "fs ! i" "tr @ page_start fs i"]
  by (auto simp: page_calls_def page_start_def)

lemma page_content_failed:
  "getImageData h f = Inl err \<Longrightarrow>
     page_content h options f tr = DocText (''Error loading image: '' @ name f) 10 10"
  by (simp add: page_content_def error_marker_def)

lemma page_content_thrown:
  "getImageData h f = Inr (d, w, hh) \<Longrightarrow>
     jsPDF_throws h tr (AddImage d (addImage_args binary64 options w hh)) \<Longrightarrow>
     page_content h options f tr = DocText (''Error loading image: '' @ name f) 10 10"
  by (simp add: page_content_def error_marker_def)

lemma pdf_run_only_addImage:
  assumes oa: "\<forall>tr c. jsPDF_throws h tr c \<longrightarrow> (\<exists>d a. c = AddImage d a)"
  shows "pdf_run h st =
     ((map (after_progress (files st)) [0..<Suc (length (files st))],
       pages_calls h (pdfOptions st) (map file' (files st)) [0..<length (files st)]
         [NewJsPDF (orientation (pdfOptions st))] @ [Output]),
      Inr (jsPDF_output h
             (pages_calls h (pdfOptions st) (map file' (files st)) [0..<length (files st)]
                [NewJsPDF (orientation (pdfOptions st))])))"
proof -
  have "generatePdf h (map file' (files st)) (pdfOptions st)
      (with_history (progress_callback (files st))) [resetConverting (files st)] =
     ((fold (\<lambda>j hist. hist @ [updateStatus (id' (files st ! j)) COMPLETED no_extra (last hist)])
         [0..<length (map file' (files st))] [resetConverting (files st)],
       pages_calls h (pdfOptions st) (map file' (files st)) [0..<length (map file' (files st))]
         [NewJsPDF (orientation (pdfOptions st))] @ [Output]),
      Inr (jsPDF_output h
             (pages_calls h (pdfOptions st) (map file' (files st))
                [0..<length (map file' (files st))] [NewJsPDF (orientation (pdfOptions st))])))"
    by (rule generatePdf_only_addImage [OF oa with_history_progress])
  then show ?thesis
    by (simp only: pdf_run_def Let_def fold_history length_map)
qed

text \<open>
  Claim C5. In a document run in which no jsPDF call other than \<^verbatim>\<open>addImage\<close> throws:
  the first value of \<^verbatim>\<open>files\<close> in \<^verbatim>\<open>startPdfConversion\<close> is the collection with every status
  reset to \<^verbatim>\<open>CONVERTING\<close> and no other field changed, the values after it are those of the
  progress callbacks of the pages in their order, and the state after the run holds the last
  of them. The calls of the run are those of the pages in the order of the items, one page
  after the other, and the run returns a blob, which is stored. The calls of page \<open>i\<close> are the
  progress signal for \<open>i\<close>, then \<^verbatim>\<open>addPage\<close> exactly when \<open>i > 0\<close>, then the rasterisation and
  the content; when the rasterisation of item \<open>i\<close> fails, or \<^verbatim>\<open>addImage\<close> throws, the content of
  its page is the text \<^verbatim>\<open>Error loading image: \<close> followed by the name of the file, and the
  pages after it follow.
\<close>

theorem C5_document_run:
  fixes h :: Host and st :: AppState
  defines "fs \<equiv> map file' (files st)"
  defines "opts \<equiv> pdfOptions st"
  assumes oa: "\<forall>tr c. jsPDF_throws h tr c \<longrightarrow> (\<exists>d a. c = AddImage d a)"
  shows "startPdfConversion_files h st
        = map (after_progress (files st)) [0..<Suc (length (files st))]
    \<and> hd (startPdfConversion_files h st) = map (\<lambda>f. f\<lparr>status := CONVERTING\<rparr>) (files st)
    \<and> (\<forall>f \<in> set (hd (startPdfConversion_files h st)). status f = CONVERTING)
    \<and> files (startPdfConversion h st) = last (startPdfConversion_files h st)
    \<and> snd (fst (pdf_run h st))
        = pages_calls h opts fs [0..<length fs] [NewJsPDF (orientation opts)] @ [Output]
    \<and> (\<exists>blob. snd (pdf_run h st) = Inr blob \<and> pdfBlob (startPdfConversion h st) = Some blob)
    \<and> (\<forall>js i tr. pages_calls h opts fs (js @ [i]) tr
          = pages_calls h opts fs js tr @ page_calls h opts fs i (pages_calls h opts fs js tr))
    \<and> (\<forall>i tr. page_calls h opts fs i tr
          = [Progress i] @ (if 0 < i then [AddPage] else []) @ [GetImageData (fs ! i)]
            @ [page_content h opts (fs ! i)
                 (tr @ [Progress i] @ (if 0 < i then [AddPage] else []) @ [GetImageData (fs ! i)])])
    \<and> (\<forall>i tr. (AddPage \<in> set (page_calls h opts fs i tr)) = (0 < i))
    \<and> (\<forall>i tr err. getImageData h (fs ! i) = Inl err \<longrightarrow>
          page_content h opts (fs ! i) tr
            = DocText (''Error loading image: '' @ name (fs ! i)) 10 10)
    \<and> (\<forall>i tr d w hh. getImageData h (fs ! i) = Inr (d, w, hh)
            \<and> jsPDF_throws h tr (AddImage d (addImage_args binary64 opts w hh)) \<longrightarrow>
          page_content h opts (fs ! i) tr
            = DocText (''Error loading image: '' @ name (fs ! i)) 10 10)"
proof -
  note r = pdf_run_only_addImage [OF oa, of st]
  have 1: "startPdfConversion_files h st
        = map (after_progress (files st)) [0..<Suc (length (files st))]"
    by (simp add: startPdfConversion_files_def r del: upt_Suc)
  have "hd (map (after_progress (files st)) [0..<Suc (length (files st))])
      = after_progress (files st) 0"
    by (simp add: upt_conv_Cons del: upt_Suc)
  with 1 have 2: "hd (startPdfConversion_files h st)
      = map (\<lambda>f. f\<lparr>status := CONVERTING\<rparr>) (files st)"
    by (simp add: after_progress_def resetConverting_def del: upt_Suc)
  then have 3: "\<forall>f \<in> set (hd (startPdfConversion_files h st)). status f = CONVERTING"
    by simp
  have 4: "files (startPdfConversion h st) = last (startPdfConversion_files h st)"
    by (simp add: startPdfConversion_def startPdfConversion_files_def r del: upt_Suc)
  have 5: "snd (fst (pdf_run h st))
        = pages_calls h opts fs [0..<length fs] [NewJsPDF (orientation opts)] @ [Output]"
    by (simp add: r fs_def opts_def del: upt_Suc)
  have 6: "\<exists>blob. snd (pdf_run h st) = Inr blob \<and> pdfBlob (startPdfConversion h st) = Some blob"
    by (simp add: startPdfConversion_def r del: upt_Suc)
  have 8: "\<forall>i tr. page_calls h opts fs i tr
          = [Progress i] @ (if 0 < i then [AddPage] else []) @ [GetImageData (fs ! i)]
            @ [page_content h opts (fs ! i)
                 (tr @ [Progress i] @ (if 0 < i then [AddPage] else []) @ [GetImageData (fs ! i)])]"
    by (simp add: page_calls_def page_start_def)
  have 7: "\<forall>js i tr. pages_calls h opts fs (js @ [i]) tr
          = pages_calls h opts fs js tr @ page_calls h opts fs i (pages_calls h opts fs js tr)"
    by (simp add: pages_calls_snoc)
  have 9: "\<forall>i tr. (AddPage \<in> set (page_calls h opts fs i tr)) = (0 < i)"
    by (simp add: page_calls_AddPage)
  have 10: "\<forall>i tr err. getImageData h (fs ! i) = Inl err \<longrightarrow>
          page_content h opts (fs ! i) tr
            = DocText (''Error loading image: '' @ name (fs ! i)) 10 10"
    by (simp add: page_content_failed)
  have 11: "\<forall>i tr d w hh. getImageData h (fs ! i) = Inr (d, w, hh)
            \<and> jsPDF_throws h tr (AddImage d (addImage_args binary64 opts w hh)) \<longrightarrow>
          page_content h opts (fs ! i) tr
            = DocText (''Error loading image: '' @ name (fs ! i)) 10 10"
    by (simp add: page_content_thrown)
  show ?thesis
    by (intro conjI) (rule 1 2 3 4 5 6 7 8 9 10 11)+
qed

theorem C5_witness:
  "startPdfConversion_files host_good state2
     = [[(itemIdle ''1'' ''a.webp'')\<lparr>status := CONVERTING\<rparr>,
         (itemIdle ''2'' ''broken.webp'')\<lparr>status := CONVERTING\<rparr>],
        [(itemIdle ''1'' ''a.webp'')\<lparr>status := COMPLETED\<rparr>,
         (itemIdle ''2'' ''broken.webp'')\<lparr>status := CONVERTING\<rparr>],
        [(itemIdle ''1'' ''a.webp'')\<lparr>status := COMPLETED\<rparr>,
         (itemIdle ''2'' ''broken.webp'')\<lparr>status := COMPLETED\<rparr>]]
   \<and> snd (fst (pdf_run host_good state2))
     = [NewJsPDF portrait,
        Progress 0, GetImageData \<lparr>name = ''a.webp'', bytes = ''1''\<rparr>,
        AddImage ''data:1'' (Num 10, Num 101, Num 190, Num 95),
        Progress 1, AddPage, GetImageData \<lparr>name = ''broken.webp'', bytes = ''2''\<rparr>,
        DocText ''Error loading image: broken.webp'' 10 10,
        Output]"
proof -
  have oa: "\<forall>tr c. jsPDF_throws host_good tr c \<longrightarrow> (\<exists>d a. c = AddImage d a)"
    by (simp add: host_good_def)
  note t = C5_document_run [OF oa, of state2]
  from t have "startPdfConversion_files host_good state2
        = map (after_progress (files state2)) [0..<Suc (length (files state2))]"
    by blast
  then have a: "startPdfConversion_files host_good state2
     = [[(itemIdle ''1'' ''a.webp'')\<lparr>status := CONVERTING\<rparr>,
         (itemIdle ''2'' ''broken.webp'')\<lparr>status := CONVERTING\<rparr>],
        [(itemIdle ''1'' ''a.webp'')\<lparr>status := COMPLETED\<rparr>,
         (itemIdle ''2'' ''broken.webp'')\<lparr>status := CONVERTING\<rparr>],
        [(itemIdle ''1'' ''a.webp'')\<lparr>status := COMPLETED\<rparr>,
         (itemIdle ''2'' ''broken.webp'')\<lparr>status := COMPLETED\<rparr>]]"
    by (simp add: state2_def after_progress_def resetConverting_def updateStatus_def
        spread_no_extra itemIdle_def)
  from t have "snd (fst (pdf_run host_good state2))
        = pages_calls host_good (pdfOptions state2) (map file' (files state2))
            [0..<length (map file' (files state2))] [NewJsPDF (orientation (pdfOptions state2))]
          @ [Output]"
    by blast
  also have "\<dots> = [NewJsPDF portrait,
        Progress 0, GetImageData \<lparr>name = ''a.webp'', bytes = ''1''\<rparr>,
        AddImage ''data:1'' (Num 10, Num 101, Num 190, Num 95),
        Progress 1, AddPage, GetImageData \<lparr>name = ''broken.webp'', bytes = ''2''\<rparr>,
        DocText ''Error loading image: broken.webp'' 10 10,
        Output]"
    by (simp add: state2_def itemIdle_def pages_calls_def page_calls_def page_start_def
        page_content_def error_marker_def host_good_def
        args_2_1 args_2_1 [unfolded One_nat_def])
  finally show ?thesis
    using a by simp
qed

subsection \<open>Conversion runs\<close>

declare settle_all.simps [simp del] jpeg_loop.simps [simp del]

lemma dispatched_append: "dispatched (xs @ ys) = dispatched xs @ dispatched ys"
  by (induction xs rule: dispatched.induct) simp_all

lemma dispatched_concat: "dispatched (concat xss) = concat (map dispatched xss)"
  by (induction xss) (simp_all add: dispatched_append)

lemma Dispatch_in_set: "(Dispatch x \<in> set es) = (x \<in> set (dispatched es))"
  by (induction es rule: dispatched.induct) auto

lemma dispatched_batch_map: "dispatched (batch_map batch) = batch"
  by (induction batch) (simp_all add: batch_map_def)

lemma is_settle_settle: "is_settle (id' x) (settle h x)"
  by (simp add: settle_def split: sum.splits)

lemma settle_not_Dispatch: "settle h x \<noteq> Dispatch y"
  by (simp add: settle_def split: sum.splits)

lemma no_settle_batch_map: "list_all (\<lambda>e. \<not> is_settle i e) (batch_map batch)"
  by (induction batch) (simp_all add: batch_map_def)

lemma mset_remove_nth:
  "k < length xs \<Longrightarrow> mset xs = add_mset (xs ! k) (mset (take k xs @ drop (Suc k) xs))"
proof -
  assume "k < length xs"
  then have "xs = take k xs @ xs ! k # drop (Suc k) xs"
    by (rule id_take_nth_drop)
  then have "mset xs = mset (take k xs @ xs ! k # drop (Suc k) xs)"
    by simp
  then show ?thesis
    by simp
qed

lemma mset_settle_all: "mset (settle_all h inflight) = image_mset (settle h) (mset inflight)"
proof (induction h inflight rule: settle_all.induct)
  case (1 h inflight)
  show ?case
  proof (cases "inflight = []")
    case True
    then show ?thesis
      by (simp add: settle_all.simps [of h "[]"])
  next
    case False
    define k where "k = settles_next h inflight mod length inflight"
    from False have kl: "k < length inflight"
      by (simp add: k_def)
    from "1.IH" [OF False k_def]
    have "mset (settle_all h (take k inflight @ drop (Suc k) inflight))
        = image_mset (settle h) (mset (take k inflight @ drop (Suc k) inflight))" .
    moreover have "settle_all h inflight
        = settle h (inflight ! k) # settle_all h (take k inflight @ drop (Suc k) inflight)"
      using False by (simp add: settle_all.simps [of h inflight] k_def Let_def)
    ultimately show ?thesis
      using mset_remove_nth [OF kl] by simp
  qed
qed

lemma set_settle_all: "set (settle_all h inflight) = settle h ` set inflight"
proof -
  have "set_mset (mset (settle_all h inflight)) = set_mset (image_mset (settle h) (mset inflight))"
    by (simp only: mset_settle_all)
  then show ?thesis
    by simp
qed

lemma dispatched_settle_all: "dispatched (settle_all h inflight) = []"
proof -
  have "x \<notin> set (dispatched (settle_all h inflight))" for x
    by (auto simp: Dispatch_in_set [symmetric] set_settle_all settle_not_Dispatch [symmetric])
  then show ?thesis
    by (cases "dispatched (settle_all h inflight)") auto
qed

lemma dispatched_promise_all: "dispatched (promise_all h batch) = batch"
  by (simp add: promise_all_def dispatched_append dispatched_batch_map dispatched_settle_all)

lemma length_slice: "length (slice b e xs) = min (e - b) (length xs - b)"
  by (simp add: slice_def)

lemma jpeg_loop_dispatched: "concat (map dispatched (jpeg_loop h p i)) = drop i p"
proof (induction h p i rule: jpeg_loop.induct)
  case (1 h p i)
  show ?case
  proof (cases "i < length p")
    case True
    have "take BATCH_SIZE (drop i p) @ drop (i + BATCH_SIZE) p = drop i p"
      by (metis add.commute append_take_drop_id drop_drop)
    with True "1.IH" [OF True refl] show ?thesis
      by (simp add: jpeg_loop.simps [of h p i] dispatched_promise_all slice_def)
  next
    case False
    then show ?thesis
      by (simp add: jpeg_loop.simps [of h p i])
  qed
qed

lemma jpeg_loop_length: "length (jpeg_loop h p i) = (length p - i + 2) div 3"
proof (induction h p i rule: jpeg_loop.induct)
  case (1 h p i)
  show ?case
  proof (cases "i < length p")
    case True
    with "1.IH" [OF True refl] show ?thesis
      by (simp add: jpeg_loop.simps [of h p i] BATCH_SIZE_def) arith
  next
    case False
    then show ?thesis
      by (simp add: jpeg_loop.simps [of h p i])
  qed
qed

lemma jpeg_loop_nth:
  "k < length (jpeg_loop h p i) \<Longrightarrow>
     jpeg_loop h p i ! k = promise_all h (slice (i + 3 * k) (i + 3 * k + 3) p)"
proof (induction h p i arbitrary: k rule: jpeg_loop.induct)
  case (1 h p i)
  show ?case
  proof (cases "i < length p")
    case True
    show ?thesis
    proof (cases k)
      case 0
      with True show ?thesis
        by (simp add: jpeg_loop.simps [of h p i] BATCH_SIZE_def)
    next
      case (Suc m)
      with "1.prems" True have "m < length (jpeg_loop h p (i + BATCH_SIZE))"
        by (simp add: jpeg_loop.simps [of h p i])
      from "1.IH" [OF True refl this] Suc True show ?thesis
        by (simp add: jpeg_loop.simps [of h p i] BATCH_SIZE_def add.assoc)
    qed
  next
    case False
    with "1.prems" show ?thesis
      by (simp add: jpeg_loop.simps [of h p i])
  qed
qed

lemma jpeg_loop_map:
  "jpeg_loop h p 0
     = map (\<lambda>k. promise_all h (slice (3 * k) (3 * k + 3) p)) [0..<(length p + 2) div 3]"
  by (rule nth_equalityI) (simp_all add: jpeg_loop_length jpeg_loop_nth)

lemma prefix_before_Dispatch:
  assumes "pre @ Dispatch x # post = A @ B" and "Dispatch x \<notin> set A"
  shows "set A \<subseteq> set pre"
proof -
  from assms(1) consider us where "pre @ us = A" "Dispatch x # post = us @ B"
    | us where "pre = A @ us"
    by (auto simp: append_eq_append_conv2)
  then show ?thesis
  proof cases
    case 1
    show ?thesis
    proof (cases us)
      case Nil
      with 1 show ?thesis by auto
    next
      case (Cons u us')
      with 1 have "Dispatch x \<in> set A" by auto
      with assms(2) show ?thesis by simp
    qed
  next
    case 2
    then show ?thesis by auto
  qed
qed

lemma rounds_sequential:
  assumes d: "distinct p"
    and k: "Suc k < length (jpeg_loop h p 0)"
    and tr: "startJpegConversion h p = pre @ Dispatch x # post"
    and x: "x \<in> set (dispatched (jpeg_loop h p 0 ! Suc k))"
    and y: "y \<in> set (dispatched (jpeg_loop h p 0 ! k))"
  shows "settle h y \<in> set pre"
proof -
  let ?R = "jpeg_loop h p 0"
  let ?A = "concat (take (Suc k) ?R)" and ?B = "concat (drop (Suc k) ?R)"
  have split: "startJpegConversion h p = ?A @ ?B"
    by (simp add: startJpegConversion_def flip: concat_append)
  have "dispatched ?A @ dispatched ?B = p"
    using jpeg_loop_dispatched [of h p 0]
    by (simp add: dispatched_concat flip: dispatched_append map_append concat_append)
  with d have disj: "set (dispatched ?A) \<inter> set (dispatched ?B) = {}"
    by (metis distinct_append)
  from k have "?R ! Suc k \<in> set (drop (Suc k) ?R)"
    by (metis Cons_nth_drop_Suc list.set_intros(1))
  with x have "x \<in> set (dispatched ?B)"
    by (auto simp: dispatched_concat)
  with disj have "x \<notin> set (dispatched ?A)"
    by blast
  then have "Dispatch x \<notin> set ?A"
    by (simp only: Dispatch_in_set not_False_eq_True)
  with tr split have sub: "set ?A \<subseteq> set pre"
    using prefix_before_Dispatch [of pre x post ?A ?B] by simp
  from k have kk: "k < length ?R"
    by simp
  then have rk: "?R ! k = promise_all h (dispatched (?R ! k))"
    by (simp add: jpeg_loop_nth dispatched_promise_all)
  from y have "settle h y \<in> set (settle_all h (dispatched (?R ! k)))"
    by (simp add: set_settle_all)
  with rk have "settle h y \<in> set (?R ! k)"
    by (metis Un_iff promise_all_def set_append)
  moreover from kk have "?R ! k \<in> set (take (Suc k) ?R)"
    by (metis in_set_conv_nth length_take lessI min_less_iff_conj nth_take)
  ultimately have "settle h y \<in> set ?A"
    by auto
  with sub show ?thesis
    by auto
qed

lemma startJpegConversion_Nil: "startJpegConversion h [] = []"
  by (simp add: startJpegConversion_def jpeg_loop.simps [of h "[]" 0])

lemma startConversion_JPEG:
  assumes "mode st = JPEG"
  shows "files (startConversion h st)
     = fold apply_event (startJpegConversion h (pendingFiles (files st))) (files st)"
proof (cases "pendingFiles (files st) = []")
  case True
  with assms show ?thesis
    by (simp add: startConversion_def startJpegConversion_Nil Let_def)
next
  case False
  then have "files st \<noteq> []"
    by (auto simp: pendingFiles_def)
  with False assms show ?thesis
    by (simp add: startConversion_def Let_def)
qed

lemma batch_lengths:
  fixes n k :: nat
  assumes "k < (n + 2) div 3"
  shows "1 \<le> min 3 (n - 3 * k)" and "Suc k < (n + 2) div 3 \<Longrightarrow> min 3 (n - 3 * k) = 3"
  using assms by arith+

text \<open>
  Claim C1. The scheduler selects the items whose status is \<^verbatim>\<open>IDLE\<close> or \<^verbatim>\<open>ERROR\<close>, in
  their order (none that is \<^verbatim>\<open>COMPLETED\<close> or \<^verbatim>\<open>CONVERTING\<close>), and its effects are those of the
  rounds of the loop, one after the other. Round \<open>k\<close> handles the batch of the selected items
  \<open>3k\<close> to \<open>3k + 2\<close>: the batches are consecutive pieces of the selection, each of 1 to 3
  items and all but the last of exactly 3, so that 7 selected items make the batches of sizes
  3, 3 and 1. In a round, each item of the batch in turn is marked \<^verbatim>\<open>CONVERTING\<close> and then
  dispatched, all of them before any conversion of the batch settles; then every item of the
  batch settles once, in the order the host decides. With distinct identifiers, when an
  item of batch \<open>k + 1\<close> is dispatched every item of batch \<open>k\<close> has settled.
\<close>

theorem C1_batch_scheduler:
  fixes h :: Host and st :: AppState
  defines "pending \<equiv> pendingFiles (files st)"
  defines "rounds \<equiv> jpeg_loop h pending 0"
  defines "batch \<equiv> \<lambda>k. slice (3 * k) (3 * k + 3) pending"
  assumes d: "distinct (map id' (files st))"
  shows "pending = filter (\<lambda>f. status f = IDLE \<or> status f = ERROR) (files st)
    \<and> set pending = {f \<in> set (files st). status f \<noteq> COMPLETED \<and> status f \<noteq> CONVERTING}
    \<and> (mode st = JPEG \<longrightarrow>
          files (startConversion h st) = fold apply_event (concat rounds) (files st))
    \<and> startJpegConversion h pending = concat rounds
    \<and> length rounds = (length pending + 2) div 3
    \<and> concat (map batch [0..<length rounds]) = pending
    \<and> (\<forall>k<length rounds. 1 \<le> length (batch k) \<and> length (batch k) \<le> 3
          \<and> (Suc k < length rounds \<longrightarrow> length (batch k) = 3))
    \<and> (length pending = 7 \<longrightarrow> map (\<lambda>k. length (batch k)) [0..<length rounds] = [3, 3, 1])
    \<and> (\<forall>k<length rounds.
          rounds ! k
            = concat (map (\<lambda>item. [UpdateStatus (id' item) CONVERTING no_extra, Dispatch item])
                        (batch k))
              @ settle_all h (batch k))
    \<and> (\<forall>k<length rounds.
          mset (settle_all h (batch k)) = image_mset (settle h) (mset (batch k))
          \<and> dispatched (settle_all h (batch k)) = [])
    \<and> (\<forall>x. is_settle (id' x) (settle h x))
    \<and> (\<forall>k pre x post y.
          Suc k < length rounds \<and> concat rounds = pre @ Dispatch x # post
            \<and> x \<in> set (batch (Suc k)) \<and> y \<in> set (batch k)
          \<longrightarrow> settle h y \<in> set pre)"
proof -
  have 1: "pending = filter (\<lambda>f. status f = IDLE \<or> status f = ERROR) (files st)"
    by (simp add: pending_def pendingFiles_def)
  have 2: "set pending = {f \<in> set (files st). status f \<noteq> COMPLETED \<and> status f \<noteq> CONVERTING}"
  proof -
    have "(status f = IDLE \<or> status f = ERROR) = (status f \<noteq> COMPLETED \<and> status f \<noteq> CONVERTING)"
      for f :: FileItem
      by (cases "status f") simp_all
    then show ?thesis
      by (simp add: 1)
  qed
  have 4: "startJpegConversion h pending = concat rounds"
    by (simp add: startJpegConversion_def rounds_def)
  have 3: "mode st = JPEG \<longrightarrow>
          files (startConversion h st) = fold apply_event (concat rounds) (files st)"
    using startConversion_JPEG [of st h] 4 by (simp add: pending_def)
  have 5: "length rounds = (length pending + 2) div 3"
    by (simp add: rounds_def jpeg_loop_length)
  have nth: "rounds ! k = promise_all h (batch k)" if "k < length rounds" for k
    using that by (simp add: rounds_def batch_def jpeg_loop_nth)
  have "map dispatched rounds = map batch [0..<length rounds]"
    by (rule nth_equalityI) (simp_all add: nth dispatched_promise_all)
  then have 6: "concat (map batch [0..<length rounds]) = pending"
    using jpeg_loop_dispatched [of h pending 0] by (simp add: rounds_def)
  have len: "length (batch k) = min 3 (length pending - 3 * k)" for k
    by (simp add: batch_def length_slice)
  have 7: "\<forall>k<length rounds. 1 \<le> length (batch k) \<and> length (batch k) \<le> 3
          \<and> (Suc k < length rounds \<longrightarrow> length (batch k) = 3)"
    using batch_lengths [of _ "length pending"] by (simp add: len 5)
  have 8: "length pending = 7 \<longrightarrow> map (\<lambda>k. length (batch k)) [0..<length rounds] = [3, 3, 1]"
  proof
    assume n: "length pending = 7"
    have "[0..<3] = [0, 1, 2]"
      by (simp add: upt_conv_Cons)
    with n show "map (\<lambda>k. length (batch k)) [0..<length rounds] = [3, 3, 1]"
      by (simp add: len 5)
  qed
  have 9: "\<forall>k<length rounds.
          rounds ! k
            = concat (map (\<lambda>item. [UpdateStatus (id' item) CONVERTING no_extra, Dispatch item])
                        (batch k))
              @ settle_all h (batch k)"
    by (simp add: nth promise_all_def batch_map_def)
  have 10: "\<forall>k<length rounds.
          mset (settle_all h (batch k)) = image_mset (settle h) (mset (batch k))
          \<and> dispatched (settle_all h (batch k)) = []"
    by (simp add: mset_settle_all dispatched_settle_all)
  have 11: "\<forall>x. is_settle (id' x) (settle h x)"
    by (simp add: is_settle_settle)
  have 12: "settle h y \<in> set pre"
    if "Suc k < length rounds \<and> concat rounds = pre @ Dispatch x # post
            \<and> x \<in> set (batch (Suc k)) \<and> y \<in> set (batch k)" for k pre x post y
  proof -
    from d have "distinct (files st)"
      by (rule distinct_map [THEN iffD1, THEN conjunct1])
    then have dp: "distinct pending"
      by (simp add: 1)
    from that have k: "Suc k < length (jpeg_loop h pending 0)"
      and tr: "startJpegConversion h pending = pre @ Dispatch x # post"
      by (simp_all add: rounds_def 4)
    from that nth [of "Suc k"] nth [of k]
    have "x \<in> set (dispatched (jpeg_loop h pending 0 ! Suc k))"
      and "y \<in> set (dispatched (jpeg_loop h pending 0 ! k))"
      by (simp_all add: dispatched_promise_all flip: rounds_def)
    with dp k tr show ?thesis
      by (rule rounds_sequential)
  qed
  then have 12: "\<forall>k pre x post y.
          Suc k < length rounds \<and> concat rounds = pre @ Dispatch x # post
            \<and> x \<in> set (batch (Suc k)) \<and> y \<in> set (batch k)
          \<longrightarrow> settle h y \<in> set pre"
    by blast
  from 1 2 3 4 5 6 7 8 9 10 11 12 show ?thesis
    by blast
qed

theorem C1_witness:
  "distinct (map id' (files state3))
   \<and> length (pendingFiles (files state3)) = 7
   \<and> length (jpeg_loop host_good (pendingFiles (files state3)) 0) = 3
   \<and> map (\<lambda>k. length (slice (3 * k) (3 * k + 3) (pendingFiles (files state3))))
        [0..<length (jpeg_loop host_good (pendingFiles (files state3)) 0)] = [3, 3, 1]"
proof -
  have d: "distinct (map id' (files state3))"
    by (simp add: state3_def itemIdle_def itemDone_def)
  have n: "length (pendingFiles (files state3)) = 7"
    by (simp add: state3_def itemIdle_def itemDone_def pendingFiles_def)
  note t = C1_batch_scheduler [OF d, of host_good]
  from t have "length (jpeg_loop host_good (pendingFiles (files state3)) 0)
      = (length (pendingFiles (files state3)) + 2) div 3"
    by blast
  with n have l: "length (jpeg_loop host_good (pendingFiles (files state3)) 0) = 3"
    by simp
  from t have "length (pendingFiles (files state3)) = 7 \<longrightarrow>
      map (\<lambda>k. length (slice (3 * k) (3 * k + 3) (pendingFiles (files state3))))
        [0..<length (jpeg_loop host_good (pendingFiles (files state3)) 0)] = [3, 3, 1]"
    by blast
  with n have "map (\<lambda>k. length (slice (3 * k) (3 * k + 3) (pendingFiles (files state3))))
        [0..<length (jpeg_loop host_good (pendingFiles (files state3)) 0)] = [3, 3, 1]"
    by blast
  with d n l show ?thesis
    by blast
qed

subsection \<open>The output and error invariant\<close>

lemma startJpegConversion_single:
  "startJpegConversion h [x] = [UpdateStatus (id' x) CONVERTING no_extra, Dispatch x, settle h x]"
  by (simp add: startJpegConversion_def jpeg_loop.simps [of h "[x]" 0]
      jpeg_loop.simps [of h "[x]" 3] BATCH_SIZE_def slice_def promise_all_def batch_map_def
      settle_all.simps [of h "[x]"] settle_all.simps [of h "[]"])

lemma files_state_failed:
  "files state_failed =
     [\<lparr>id' = ''1'', file' = \<lparr>name = ''broken.webp'', bytes = ''x''\<rparr>, previewUrl = ''blob:1'',
       status = ERROR, convertedBlob = None, error = Some ''Conversion failed''\<rparr>]"
  by (simp add: state_failed_def state_added_def state_empty_def handleFilesAdded_def newItem_def
      startConversion_def pendingFiles_def startJpegConversion_single settle_def host_good_def
      updateStatus_def spread_def no_extra_def)

text \<open>
  The invariant does not hold after every mutation. In the session above the item satisfies
  it after the addition and after the failed conversion; the retry marks the item
  \<^verbatim>\<open>CONVERTING\<close> with the error of the failed conversion still present, and ends with the
  item \<^verbatim>\<open>COMPLETED\<close> with both an output and an error.
\<close>

theorem C2_counterexample:
  "list_all item_invariant (files state_added)
   \<and> list_all item_invariant (files state_failed)
   \<and> \<not> list_all item_invariant (updateStatus ''1'' CONVERTING no_extra (files state_failed))
   \<and> \<not> list_all item_invariant (files (startConversion host_recovered state_failed))"
proof -
  have a: "list_all item_invariant (files state_added)"
    by (simp add: state_added_def state_empty_def handleFilesAdded_def newItem_def
        item_invariant_def)
  have b: "list_all item_invariant (files state_failed)"
    by (simp add: files_state_failed item_invariant_def)
  have c: "\<not> list_all item_invariant (updateStatus ''1'' CONVERTING no_extra (files state_failed))"
    by (simp add: files_state_failed item_invariant_def updateStatus_def spread_def no_extra_def)
  have m: "mode state_failed = JPEG"
    by (simp add: state_failed_def state_added_def state_empty_def handleFilesAdded_def
        startConversion_def Let_def)
  have "files (startConversion host_recovered state_failed) =
     [\<lparr>id' = ''1'', file' = \<lparr>name = ''broken.webp'', bytes = ''x''\<rparr>, previewUrl = ''blob:1'',
       status = COMPLETED, convertedBlob = Some ''jpeg:x'',
       error = Some ''Conversion failed''\<rparr>]"
    by (simp add: startConversion_def m files_state_failed pendingFiles_def
        startJpegConversion_single settle_def host_recovered_def host_good_def
        updateStatus_def spread_def no_extra_def)
  then have d: "\<not> list_all item_invariant (files (startConversion host_recovered state_failed))"
    by (simp add: item_invariant_def)
  from a b c d show ?thesis
    by blast
qed

lemma item_invariant_newItem: "item_invariant (newItem x)"
  by (cases x) (simp add: newItem_def item_invariant_def)

lemma item_invariant_spread_converting:
  "item_invariant f \<Longrightarrow> status f = IDLE \<Longrightarrow> item_invariant (spread f CONVERTING no_extra)"
  by (simp add: item_invariant_def spread_def no_extra_def)

lemma item_invariant_spread_completed:
  "item_invariant f \<Longrightarrow> status f = CONVERTING \<Longrightarrow>
     item_invariant (spread f COMPLETED (no_extra\<lparr>patch_convertedBlob := Some (Some blob)\<rparr>))"
  by (simp add: item_invariant_def spread_def no_extra_def)

lemma item_invariant_spread_error:
  "item_invariant f \<Longrightarrow> status f = CONVERTING \<Longrightarrow>
     item_invariant (spread f ERROR (no_extra\<lparr>patch_error := Some (Some msg)\<rparr>))"
  by (simp add: item_invariant_def spread_def no_extra_def)

lemma list_all_updateStatus:
  assumes "list_all P prev" and "\<And>f. f \<in> set prev \<Longrightarrow> id' f = i \<Longrightarrow> P (spread f s extra)"
  shows "list_all P (updateStatus i s extra prev)"
  using assms by (auto simp: updateStatus_def list_all_iff)

text \<open>
  Claim C2, amended. Every item satisfies the invariant after an addition, a removal and a
  clearing of a collection whose items satisfy it, and after \<^verbatim>\<open>updateStatus\<close> when the items
  with the identifier go from \<^verbatim>\<open>IDLE\<close> to \<^verbatim>\<open>CONVERTING\<close>, or from \<^verbatim>\<open>CONVERTING\<close> to
  \<^verbatim>\<open>COMPLETED\<close> with an output or to \<^verbatim>\<open>ERROR\<close> with an error. \<^verbatim>\<open>updateStatus\<close> clears no field:
  an item that goes from \<^verbatim>\<open>ERROR\<close> to \<^verbatim>\<open>CONVERTING\<close> keeps its error, and keeps it beside the
  output when it goes on to \<^verbatim>\<open>COMPLETED\<close>.
\<close>

theorem C2_invariant_amended:
  "(list_all item_invariant (files st) \<longrightarrow>
       list_all item_invariant (files (handleFilesAdded newFiles st))
       \<and> list_all item_invariant (files (handleRemoveFile i st))
       \<and> list_all item_invariant (files (handleClearAll confirmed st)))
   \<and> (list_all item_invariant prev \<and> list_all (\<lambda>f. id' f = i \<longrightarrow> status f = IDLE) prev \<longrightarrow>
       list_all item_invariant (updateStatus i CONVERTING no_extra prev))
   \<and> (list_all item_invariant prev \<and> list_all (\<lambda>f. id' f = i \<longrightarrow> status f = CONVERTING) prev \<longrightarrow>
       list_all item_invariant
         (updateStatus i COMPLETED (no_extra\<lparr>patch_convertedBlob := Some (Some blob)\<rparr>) prev)
       \<and> list_all item_invariant
           (updateStatus i ERROR (no_extra\<lparr>patch_error := Some (Some msg)\<rparr>) prev))
   \<and> error (spread f CONVERTING no_extra) = error f
   \<and> convertedBlob (spread f CONVERTING no_extra) = convertedBlob f
   \<and> error (spread f COMPLETED (no_extra\<lparr>patch_convertedBlob := Some (Some blob)\<rparr>)) = error f
   \<and> convertedBlob (spread f COMPLETED (no_extra\<lparr>patch_convertedBlob := Some (Some blob)\<rparr>))
       = Some blob
   \<and> error (spread f ERROR (no_extra\<lparr>patch_error := Some (Some msg)\<rparr>)) = Some msg
   \<and> convertedBlob (spread f ERROR (no_extra\<lparr>patch_error := Some (Some msg)\<rparr>))
       = convertedBlob f"
proof -
  have 1: "list_all item_invariant (files st) \<longrightarrow>
       list_all item_invariant (files (handleFilesAdded newFiles st))
       \<and> list_all item_invariant (files (handleRemoveFile i st))
       \<and> list_all item_invariant (files (handleClearAll confirmed st))"
    by (auto simp: handleFilesAdded_def handleRemoveFile_def handleClearAll_def list_all_iff
        item_invariant_newItem)
  have 2: "list_all item_invariant prev \<and> list_all (\<lambda>f. id' f = i \<longrightarrow> status f = IDLE) prev \<longrightarrow>
       list_all item_invariant (updateStatus i CONVERTING no_extra prev)"
  proof (intro impI, elim conjE)
    assume a: "list_all item_invariant prev"
      and b: "list_all (\<lambda>f. id' f = i \<longrightarrow> status f = IDLE) prev"
    show "list_all item_invariant (updateStatus i CONVERTING no_extra prev)"
    proof (rule list_all_updateStatus [OF a])
      fix f assume "f \<in> set prev" and "id' f = i"
      with a b have "item_invariant f" and "status f = IDLE"
        by (auto simp: list_all_iff)
      then show "item_invariant (spread f CONVERTING no_extra)"
        by (rule item_invariant_spread_converting)
    qed
  qed
  have 3: "list_all item_invariant prev \<and> list_all (\<lambda>f. id' f = i \<longrightarrow> status f = CONVERTING) prev \<longrightarrow>
       list_all item_invariant
         (updateStatus i COMPLETED (no_extra\<lparr>patch_convertedBlob := Some (Some blob)\<rparr>) prev)
       \<and> list_all item_invariant
           (updateStatus i ERROR (no_extra\<lparr>patch_error := Some (Some msg)\<rparr>) prev)"
  proof (intro impI, elim conjE)
    assume a: "list_all item_invariant prev"
      and b: "list_all (\<lambda>f. id' f = i \<longrightarrow> status f = CONVERTING) prev"
    have c: "item_invariant f \<and> status f = CONVERTING" if "f \<in> set prev" and "id' f = i" for f
      using a b that by (auto simp: list_all_iff)
    show "list_all item_invariant
         (updateStatus i COMPLETED (no_extra\<lparr>patch_convertedBlob := Some (Some blob)\<rparr>) prev)
       \<and> list_all item_invariant
           (updateStatus i ERROR (no_extra\<lparr>patch_error := Some (Some msg)\<rparr>) prev)"
    proof
      show "list_all item_invariant
         (updateStatus i COMPLETED (no_extra\<lparr>patch_convertedBlob := Some (Some blob)\<rparr>) prev)"
        by (rule list_all_updateStatus [OF a]) (simp add: c item_invariant_spread_completed)
      show "list_all item_invariant
           (updateStatus i ERROR (no_extra\<lparr>patch_error := Some (Some msg)\<rparr>) prev)"
        by (rule list_all_updateStatus [OF a]) (simp add: c item_invariant_spread_error)
    qed
  qed
  have 4: "error (spread f CONVERTING no_extra) = error f
   \<and> convertedBlob (spread f CONVERTING no_extra) = convertedBlob f
   \<and> error (spread f COMPLETED (no_extra\<lparr>patch_convertedBlob := Some (Some blob)\<rparr>)) = error f
   \<and> convertedBlob (spread f COMPLETED (no_extra\<lparr>patch_convertedBlob := Some (Some blob)\<rparr>))
       = Some blob
   \<and> error (spread f ERROR (no_extra\<lparr>patch_error := Some (Some msg)\<rparr>)) = Some msg
   \<and> convertedBlob (spread f ERROR (no_extra\<lparr>patch_error := Some (Some msg)\<rparr>))
       = convertedBlob f"
    by (simp add: spread_def no_extra_def)
  from 1 2 3 4 show ?thesis
    by blast
qed

theorem C2_witness:
  "list_all item_invariant (files state_added)
   \<and> list_all item_invariant (files (handleRemoveFile ''1'' state_added))
   \<and> list_all item_invariant (updateStatus ''1'' CONVERTING no_extra (files state_added))
   \<and> list_all item_invariant
       (updateStatus ''1'' ERROR (no_extra\<lparr>patch_error := Some (Some ''Conversion failed'')\<rparr>)
          (updateStatus ''1'' CONVERTING no_extra (files state_added)))"
proof -
  have e: "list_all item_invariant (files state_empty)"
    by (simp add: state_empty_def)
  note t0 = C2_invariant_amended [of state_empty
      "[(\<lparr>name = ''broken.webp'', bytes = ''x''\<rparr>, ''1'', ''blob:1'')]"]
  from t0 e have a: "list_all item_invariant (files state_added)"
    unfolding state_added_def by blast
  note t1 = C2_invariant_amended [of state_added _ "''1''" _ "files state_added"]
  from t1 a have r: "list_all item_invariant (files (handleRemoveFile ''1'' state_added))"
    by blast
  have i: "list_all (\<lambda>f. id' f = ''1'' \<longrightarrow> status f = IDLE) (files state_added)"
    by (simp add: state_added_def state_empty_def handleFilesAdded_def newItem_def)
  from t1 a i have c: "list_all item_invariant (updateStatus ''1'' CONVERTING no_extra (files state_added))"
    by blast
  have j: "list_all (\<lambda>f. id' f = ''1'' \<longrightarrow> status f = CONVERTING)
      (updateStatus ''1'' CONVERTING no_extra (files state_added))"
    by (simp add: state_added_def state_empty_def handleFilesAdded_def newItem_def
        updateStatus_def spread_def no_extra_def)
  note t2 = C2_invariant_amended [of _ _ "''1''" _
      "updateStatus ''1'' CONVERTING no_extra (files state_added)" _ "''Conversion failed''"]
  from t2 c j have "list_all item_invariant
       (updateStatus ''1'' ERROR (no_extra\<lparr>patch_error := Some (Some ''Conversion failed'')\<rparr>)
          (updateStatus ''1'' CONVERTING no_extra (files state_added)))"
    by blast
  with a r c show ?thesis
    by blast
qed

end
